theory Spec2Isabelle
  imports Main
begin

section \<open>The shell: data model\<close>

text \<open>
  The program is the interactive shell, a single C source file. Its globals are collected in the
  record \<open>shell\<close>; everything the program does to the outside world (text written to the
  standard streams, signals sent, processes created) is appended to the field \<open>trace\<close>
  in program order.
\<close>

abbreviation EFFECTIVE_BUFFER_SIZE :: nat where "EFFECTIVE_BUFFER_SIZE \<equiv> 512"
abbreviation BUFFER_SIZE :: nat where "BUFFER_SIZE \<equiv> 513"
abbreviation ARGS_SIZE :: nat where "ARGS_SIZE \<equiv> 4"

abbreviation NUL :: char where "NUL \<equiv> CHR 0x00"
abbreviation NEWLINE :: char where "NEWLINE \<equiv> CHR 0x0A"
abbreviation CMD_EXIT :: string where "CMD_EXIT \<equiv> ''exit''"
abbreviation PROMPT :: string where "PROMPT \<equiv> ''$ ''"
abbreviation RUN_IN_BG :: char where "RUN_IN_BG \<equiv> CHR ''&''"
abbreviation REDIR_OUT :: char where "REDIR_OUT \<equiv> CHR ''>''"
abbreviation REDIR_IN :: char where "REDIR_IN \<equiv> CHR ''<''"

text \<open>
  A slot of the argument array: \<open>Garbage\<close> is memory that \<^verbatim>\<open>malloc\<close>/\<^verbatim>\<open>realloc\<close>
  returned and that was not written yet, \<open>Null\<close> the null pointer, \<open>Ptr i\<close> the address
  \<^verbatim>\<open>&buffer[i]\<close>.
\<close>

datatype cptr = Garbage | Null | Ptr nat

text \<open>
  \<^verbatim>\<open>command_t\<close>. The flag \<^verbatim>\<open>run_in_bg\<close> is an \<^verbatim>\<open>int\<close> that only ever holds 0 or 1;
  \<open>args = None\<close> is the null array pointer; \<open>out\<close> and \<open>in'\<close> (the field \<^verbatim>\<open>in\<close>)
  are null or point into the buffer.
\<close>

record command_t =
  run_in_bg :: bool
  args :: "cptr list option"
  out :: "nat option"
  in' :: "nat option"

datatype signal = SIGKILL | SIGINT | SIGCHLD

datatype event =
    Stdout string
  | Stderr string
  | Perror string
  | Fflush
  | Kill int signal
  | Fork int

type_synonym addr = nat

text \<open>
  \<^verbatim>\<open>process_t\<close>, a node of the singly linked list of background jobs. \<^verbatim>\<open>running\<close> is an
  \<^verbatim>\<open>int\<close> holding 0 or 1.
\<close>

record process_t =
  "next" :: "addr option"
  running :: bool
  pid :: int

text \<open>
  The globals. \<open>heap\<close> holds the nodes allocated for background jobs; an address outside
  its domain is not allocated (never was, or was freed).
\<close>

record shell =
  interrupt :: int
  fg_pid :: int
  bg_head :: "addr option"
  heap :: "addr \<rightharpoonup> process_t"
  buffer :: string
  new_command :: int
  trace :: "event list"

definition emit :: "event \<Rightarrow> shell \<Rightarrow> shell" where
  "emit e s = s\<lparr>trace := trace s @ [e]\<rparr>"

section \<open>The command parser\<close>

text \<open>\<^verbatim>\<open>isspace\<close> in the C locale: space, and the control characters 9 to 13.\<close>

definition isspace :: "char \<Rightarrow> bool" where
  "isspace c \<longleftrightarrow> c = CHR '' '' \<or> c = CHR 0x09 \<or> c = CHR 0x0A \<or> c = CHR 0x0B
     \<or> c = CHR 0x0C \<or> c = CHR 0x0D"

text \<open>The locals of \<^verbatim>\<open>command_parse\<close> together with the command being filled in
  and the buffer it scans.\<close>

record parse_state =
  cmd :: command_t
  arr :: "cptr list"
  args_size :: nat
  token :: char
  ignore :: bool
  pos :: nat
  buf :: string

text \<open>
  One iteration of the \<^verbatim>\<open>for\<close> loop, at index \<open>i\<close>. \<open>can_alloc n\<close> tells whether the
  allocator grants an array of \<open>n\<close> pointers; the result \<open>Inl st\<close> is the failed
  \<^verbatim>\<open>realloc\<close>, met in state \<open>st\<close>. The array \<open>arr\<close> is what \<^verbatim>\<open>command->args\<close>
  points to.
\<close>

definition parse_step :: "(nat \<Rightarrow> bool) \<Rightarrow> nat \<Rightarrow> parse_state \<Rightarrow> parse_state + parse_state" where
  "parse_step can_alloc i st =
    (let c = buf st ! i in
     if isspace c \<or> c = NUL then
       Inr (st\<lparr>buf := (buf st)[i := NUL], ignore := False\<rparr>)
     else if c = RUN_IN_BG \<or> c = REDIR_OUT \<or> c = REDIR_IN then
       Inr (st\<lparr>cmd := (if c = RUN_IN_BG then (cmd st)\<lparr>run_in_bg := True\<rparr> else cmd st),
               token := c, buf := (buf st)[i := NUL], ignore := False\<rparr>)
     else
       let st1 =
         (if \<not> ignore st then
            (if token st = REDIR_IN then st\<lparr>cmd := (cmd st)\<lparr>in' := Some i\<rparr>\<rparr>
             else if token st = REDIR_OUT then st\<lparr>cmd := (cmd st)\<lparr>out := Some i\<rparr>\<rparr>
             else st\<lparr>arr := (arr st)[pos st := Ptr i], pos := pos st + 1\<rparr>)
            \<lparr>ignore := True\<rparr>
          else st)
       in if args_size st1 \<le> pos st1 then
            (if can_alloc (2 * args_size st1) then
               Inr (st1\<lparr>args_size := 2 * args_size st1,
                        arr := arr st1 @ replicate (args_size st1) Garbage\<rparr>)
             else Inl st1)
          else Inr st1)"

function command_parse_loop ::
  "(nat \<Rightarrow> bool) \<Rightarrow> nat \<Rightarrow> parse_state \<Rightarrow> parse_state + parse_state" where
  "command_parse_loop can_alloc i st =
    (if i < EFFECTIVE_BUFFER_SIZE then
       (case parse_step can_alloc i st of
          Inl st' \<Rightarrow> Inl st'
        | Inr st' \<Rightarrow> command_parse_loop can_alloc (i + 1) st')
     else Inr st)"
  by pat_completeness auto
termination
  by (relation "measure (\<lambda>(c, i, st). EFFECTIVE_BUFFER_SIZE - i)") auto

declare command_parse_loop.simps [simp del]

text \<open>The closing \<^verbatim>\<open>while (pos < args_size) args[pos++] = NULL\<close>.\<close>

definition null_terminate :: "parse_state \<Rightarrow> cptr list" where
  "null_terminate st = take (pos st) (arr st) @ replicate (args_size st - pos st) Null"

text \<open>The locals and the command when the loop is entered.\<close>

definition parse_init :: "string \<Rightarrow> parse_state" where
  "parse_init b =
     \<lparr>cmd = \<lparr>run_in_bg = False, args = None, out = None, in' = None\<rparr>,
      arr = replicate ARGS_SIZE Garbage, args_size = ARGS_SIZE,
      token = NUL, ignore = False, pos = 0, buf = b\<rparr>"

text \<open>
  \<^verbatim>\<open>command_parse\<close>: the return value, the command and the updated globals (the buffer is
  parsed in place; a failed allocation is reported with \<^verbatim>\<open>perror\<close>). When the first
  \<^verbatim>\<open>malloc\<close> fails, the fields of the command other than \<open>args\<close> were not written
  by the source; the model gives them their cleared values.
\<close>

definition command_parse :: "(nat \<Rightarrow> bool) \<Rightarrow> shell \<Rightarrow> int \<times> command_t \<times> shell" where
  "command_parse can_alloc s =
    (if \<not> can_alloc ARGS_SIZE then
       (-1, \<lparr>run_in_bg = False, args = None, out = None, in' = None\<rparr>, emit (Perror ''malloc'') s)
     else
       case command_parse_loop can_alloc 0 (parse_init (buffer s)) of
            Inl st \<Rightarrow>
              (-1, (cmd st)\<lparr>args := None\<rparr>, emit (Perror ''realloc'') (s\<lparr>buffer := buf st\<rparr>))
          | Inr st \<Rightarrow> (0, (cmd st)\<lparr>args := Some (null_terminate st)\<rparr>, s\<lparr>buffer := buf st\<rparr>))"


text \<open>\<^verbatim>\<open>command_clear\<close>: the array is freed and every field reset.\<close>

definition command_clear :: "command_t \<Rightarrow> command_t" where
  "command_clear c = c\<lparr>run_in_bg := False, args := None, out := None, in' := None\<rparr>"

text \<open>
  The C string that starts at \<^verbatim>\<open>&buffer[i]\<close>, and \<^verbatim>\<open>strcmp(p, lit) == 0\<close> on the memory
  \<open>mem\<close> that starts at \<open>p\<close> and ends with the array: \<open>None\<close> when the comparison would
  read past the array.
\<close>

definition c_string :: "string \<Rightarrow> nat \<Rightarrow> string" where
  "c_string b i = takeWhile (\<lambda>c. c \<noteq> NUL) (drop i b)"

fun strcmp_eq :: "string \<Rightarrow> string \<Rightarrow> bool option" where
  "strcmp_eq [] lit = None"
| "strcmp_eq (c # cs) [] = Some (c = NUL)"
| "strcmp_eq (c # cs) (d # ds) = (if c = d then strcmp_eq cs ds else Some False)"

section \<open>The line source\<close>

text \<open>
  Standard input is a pair \<open>(held, inp)\<close>: \<open>inp\<close> are the bytes of the descriptor not read
  yet, after which comes end-of-input; \<open>held\<close> are the bytes that the library's stream
  \<^verbatim>\<open>stdin\<close> has taken from the descriptor and not handed out yet. \<^verbatim>\<open>read\<close> takes bytes from the
  descriptor and never sees the held ones. \<^verbatim>\<open>getchar\<close> hands out the first held byte; when
  none is held it fills the stream with one read of the descriptor, which delivers the
  next byte and \<open>refill inp\<close> more (fewer when fewer are there), and hands out the first of
  them; at end-of-input it returns \<^verbatim>\<open>EOF\<close> (-1). How many bytes the stream takes at a time
  depends on its buffer and on what the descriptor is, so \<open>refill\<close> is a parameter.
\<close>

definition getchar :: "(string \<Rightarrow> nat) \<Rightarrow> string \<times> string \<Rightarrow> int \<times> (string \<times> string)" where
  "getchar refill st =
     (case fst st of
        c # cs \<Rightarrow> (of_char c, (cs, snd st))
      | [] \<Rightarrow>
         (case take (Suc (refill (snd st))) (snd st) of
            [] \<Rightarrow> (-1, ([], snd st))
          | c # cs \<Rightarrow> (of_char c, (cs, drop (Suc (refill (snd st))) (snd st)))))"

text \<open>
  \<^verbatim>\<open>while (getchar() != '\n');\<close> The loop has no exit but the newline, so it is a partial
  function: \<open>None\<close> is the loop that never ends.
\<close>

partial_function (option) drain_line ::
  "(string \<Rightarrow> nat) \<Rightarrow> string \<times> string \<Rightarrow> (string \<times> string) option" where
  "drain_line refill st =
     (if fst (getchar refill st) \<noteq> of_char NEWLINE then drain_line refill (snd (getchar refill st))
      else Some (snd (getchar refill st)))"

declare drain_line.simps [code]

text \<open>The buffer after \<^verbatim>\<open>memset\<close> and a \<^verbatim>\<open>read\<close> that stored the bytes \<open>data\<close>.\<close>

definition fill :: "string \<Rightarrow> string" where
  "fill data = take BUFFER_SIZE (data @ replicate BUFFER_SIZE NUL)"

text \<open>\<^verbatim>\<open>strcpy(buffer, src)\<close>: the bytes of \<open>src\<close> and the terminator.\<close>

definition strcpy :: "string \<Rightarrow> string \<Rightarrow> string" where
  "strcpy b src = (src @ [NUL]) @ drop (length src + 1) b"

text \<open>The diagnostic \<^verbatim>\<open>"Input is too long. Maximum length is %d\n"\<close>, written to the
  standard error stream with \<^verbatim>\<open>EFFECTIVE_BUFFER_SIZE\<close> for \<^verbatim>\<open>%d\<close>.\<close>

definition too_long :: event where
  "too_long = Stderr (''Input is too long. Maximum length is 512'' @ [NEWLINE])"

text \<open>
  \<^verbatim>\<open>input_read\<close>. \<open>num_bytes\<close> is what \<^verbatim>\<open>read(STDIN_FILENO, &buffer, BUFFER_SIZE)\<close> returns:
  -1 for an error, otherwise the number of bytes it delivered, which are the first
  \<open>num_bytes\<close> bytes of the descriptor. The result is the return value, standard input as
  it is left, and the globals; \<open>None\<close> when the function never returns.
\<close>

definition input_read ::
  "(string \<Rightarrow> nat) \<Rightarrow> int \<Rightarrow> string \<times> string \<Rightarrow> shell \<Rightarrow> (int \<times> (string \<times> string) \<times> shell) option" where
  "input_read refill num_bytes st s =
    (if num_bytes < 0 then
       Some (-1, st, emit (Perror ''read'') (s\<lparr>buffer := replicate BUFFER_SIZE NUL\<rparr>))
     else
       let n = nat num_bytes;
           rest = (fst st, drop n (snd st));
           s1 = s\<lparr>buffer := fill (take n (snd st))\<rparr>
       in if num_bytes > int EFFECTIVE_BUFFER_SIZE then
            let s2 = emit too_long s1
            in if buffer s2 ! (n - 1) \<noteq> NEWLINE then
                 (case drain_line refill rest of None \<Rightarrow> None | Some rest' \<Rightarrow> Some (-1, rest', s2))
               else Some (-1, rest, s2)
          else if num_bytes = 0 then
            let s2 = s1\<lparr>buffer := strcpy (buffer s1) CMD_EXIT\<rparr>
            in Some (0, rest, emit (Stdout (c_string (buffer s2) 0 @ [NEWLINE])) s2)
          else if buffer s1 ! (n - 1) = NEWLINE then
            Some (0, rest, s1\<lparr>buffer := (buffer s1)[n - 1 := NUL]\<rparr>)
          else
            Some (0, rest, emit (Stdout [NEWLINE]) (s1\<lparr>buffer := (buffer s1)[n := NUL]\<rparr>)))"


section \<open>The job registry\<close>

text \<open>\<^verbatim>\<open>%d\<close> of \<^verbatim>\<open>printf\<close>.\<close>

fun show_nat :: "nat \<Rightarrow> string" where
  "show_nat n =
     (if n < 10 then [char_of (48 + n)] else show_nat (n div 10) @ [char_of (48 + n mod 10)])"

definition show_int :: "int \<Rightarrow> string" where
  "show_int i = (if i < 0 then CHR ''-'' # show_nat (nat (- i)) else show_nat (nat i))"

text \<open>The notifications \<^verbatim>\<open>"[%d] Finished\n"\<close> and \<^verbatim>\<open>"[%d] Started\n"\<close> on the standard
  output.\<close>

definition finished :: "int \<Rightarrow> event" where
  "finished p = Stdout (''['' @ show_int p @ ''] Finished'' @ [NEWLINE])"

definition started :: "int \<Rightarrow> event" where
  "started p = Stdout (''['' @ show_int p @ ''] Started'' @ [NEWLINE])"

definition process_free :: "addr \<Rightarrow> shell \<Rightarrow> shell" where
  "process_free a s = s\<lparr>heap := (heap s)(a := None)\<rparr>"

text \<open>
  The loop of \<^verbatim>\<open>prompt_show\<close>, with its two cursors. It follows \<^verbatim>\<open>next\<close> pointers through
  the heap, so it is a partial function: \<open>None\<close> is a loop that never ends, or a read
  through a pointer that is not allocated.
\<close>

partial_function (option) prompt_show_loop ::
  "addr option \<Rightarrow> addr option \<Rightarrow> shell \<Rightarrow> shell option" where
  "prompt_show_loop curr_process prev_process s =
    (case curr_process of
       None \<Rightarrow> Some s
     | Some c \<Rightarrow>
        (case heap s c of
           None \<Rightarrow> None
         | Some cp \<Rightarrow>
            if \<not> running cp then
              let s1 = emit (finished (pid cp)) s
              in (case prev_process of
                    None \<Rightarrow>
                      prompt_show_loop (next cp) prev_process
                        (process_free c (s1\<lparr>bg_head := next cp\<rparr>))
                  | Some p \<Rightarrow>
                     (case heap s1 p of
                        None \<Rightarrow> None
                      | Some pp \<Rightarrow>
                          prompt_show_loop (next cp) prev_process
                            (process_free c
                               (s1\<lparr>heap := (heap s1)(p \<mapsto> pp\<lparr>next := next cp\<rparr>)\<rparr>))))
            else prompt_show_loop (next cp) (Some c) s))"

declare prompt_show_loop.simps [code]

definition prompt_show :: "shell \<Rightarrow> shell option" where
  "prompt_show s =
    (case prompt_show_loop (bg_head s) None s of
       None \<Rightarrow> None
     | Some s' \<Rightarrow> Some (emit Fflush (emit (Stdout PROMPT) s')))"

text \<open>\<^verbatim>\<open>command_exit_handler\<close> and its loop.\<close>

partial_function (option) exit_loop :: "addr option \<Rightarrow> shell \<Rightarrow> shell option" where
  "exit_loop curr_process s =
    (case curr_process of
       None \<Rightarrow> Some s
     | Some c \<Rightarrow>
        (case heap s c of
           None \<Rightarrow> None
         | Some cp \<Rightarrow>
            let s1 = (if running cp then emit (Kill (pid cp) SIGKILL) s else s);
                s2 = s1\<lparr>heap := (heap s1)(c \<mapsto> cp\<lparr>next := None\<rparr>)\<rparr>
            in exit_loop (next cp) (process_free c s2)))"

declare exit_loop.simps [code]

definition command_exit_handler :: "shell \<Rightarrow> shell option" where
  "command_exit_handler s =
    (case exit_loop (bg_head s) s of
       None \<Rightarrow> None
     | Some s' \<Rightarrow> Some (s'\<lparr>bg_head := None, interrupt := 1\<rparr>))"

section \<open>The termination reaper\<close>

text \<open>
  The operating system, as far as \<^verbatim>\<open>waitpid(-1, NULL, WNOHANG)\<close> shows it: \<open>zombies\<close> are
  the children that have terminated and were not waited for yet, in the order the kernel
  hands them out, \<open>live\<close> the children still running. The call returns the identifier of a
  terminated child and forgets it, 0 when only running children are left, -1 when there
  is no child at all.
\<close>

record kernel =
  zombies :: "int list"
  live :: "int list"

definition waitpid_any_nohang :: "kernel \<Rightarrow> int \<times> kernel" where
  "waitpid_any_nohang k =
    (case zombies k of
       [] \<Rightarrow> (if live k = [] then -1 else 0, k)
     | z # zs \<Rightarrow> (z, k\<lparr>zombies := zs\<rparr>))"

text \<open>The inner \<^verbatim>\<open>while (process != NULL)\<close> of the handler: the first job with the
  identifier is marked, and the search stops there.\<close>

partial_function (option) mark_terminated :: "addr option \<Rightarrow> int \<Rightarrow> shell \<Rightarrow> shell option" where
  "mark_terminated process c_pid s =
    (case process of
       None \<Rightarrow> Some s
     | Some a \<Rightarrow>
        (case heap s a of
           None \<Rightarrow> None
         | Some p \<Rightarrow>
            if pid p = c_pid then Some (s\<lparr>heap := (heap s)(a \<mapsto> p\<lparr>running := False\<rparr>)\<rparr>)
            else mark_terminated (next p) c_pid s))"

declare mark_terminated.simps [code]

text \<open>The outer \<^verbatim>\<open>while ((c_pid = waitpid(-1, NULL, WNOHANG)) > 0)\<close>.\<close>

function sigchld_loop :: "kernel \<Rightarrow> shell \<Rightarrow> (kernel \<times> shell) option" where
  "sigchld_loop k s =
    (if fst (waitpid_any_nohang k) > 0 then
       (if fst (waitpid_any_nohang k) = fg_pid s then
          sigchld_loop (snd (waitpid_any_nohang k)) (s\<lparr>fg_pid := -1\<rparr>)
        else
          (case mark_terminated (bg_head s) (fst (waitpid_any_nohang k)) s of
             None \<Rightarrow> None
           | Some s' \<Rightarrow> sigchld_loop (snd (waitpid_any_nohang k)) s'))
     else Some (snd (waitpid_any_nohang k), s))"
  by pat_completeness auto
termination
  by (relation "measure (\<lambda>(k, s). length (zombies k))")
     (auto simp: waitpid_any_nohang_def split: list.splits if_splits)

declare sigchld_loop.simps [simp del]

definition sig_handler :: "signal \<Rightarrow> kernel \<Rightarrow> shell \<Rightarrow> (kernel \<times> shell) option" where
  "sig_handler sig_num k s =
    (case (if sig_num = SIGCHLD then sigchld_loop k s else Some (k, s)) of
       None \<Rightarrow> None
     | Some (k1, s1) \<Rightarrow>
        if sig_num = SIGINT then
          let s2 = emit (Stdout [NEWLINE]) s1
          in if fg_pid s2 \<noteq> -1 then Some (k1, emit (Kill (fg_pid s2) SIGINT) s2)
             else (case prompt_show s2 of None \<Rightarrow> None | Some s3 \<Rightarrow> Some (k1, s3))
        else Some (k1, s1))"

section \<open>The process launcher\<close>

datatype errno = ECHILD | EINTR | EINVAL

text \<open>What \<^verbatim>\<open>waitpid(c_pid, &status, 0)\<close> can come back with: a failure and its
  \<^verbatim>\<open>errno\<close>, or a status, of which the loop asks \<^verbatim>\<open>WIFEXITED\<close> and \<^verbatim>\<open>WIFSIGNALED\<close>.\<close>

datatype wstatus = Exited | Signaled | Stopped

datatype wait_result = WaitFailed errno | WaitStatus wstatus

text \<open>
  Everything \<^verbatim>\<open>command_execute\<close> asks of its surroundings: whether the allocator grants
  an argument array of \<open>n\<close> pointers, the value \<^verbatim>\<open>fork\<close> returns in this process, the
  results of the successive blocking \<^verbatim>\<open>waitpid\<close> calls (after the last one the call
  blocks for good), the node \<^verbatim>\<open>malloc(sizeof(process_t))\<close> returns (\<open>None\<close> is the null
  pointer), and in the child whether \<^verbatim>\<open>open\<close>, \<^verbatim>\<open>dup2\<close> and \<^verbatim>\<open>execvp\<close> succeed.
\<close>

record env =
  can_alloc :: "nat \<Rightarrow> bool"
  fork_ret :: int
  waits :: "wait_result list"
  node_alloc :: "addr option"
  open_out_ok :: bool
  dup2_out_ok :: bool
  open_in_ok :: bool
  dup2_in_ok :: bool
  execvp_ok :: bool

text \<open>How a call ends: it returns a value, or the process ends in \<^verbatim>\<open>exit\<close>, or
  \<^verbatim>\<open>execvp\<close> has replaced the program (with the argument strings given).\<close>

datatype control = Return int | ProcessExit int | Exec "string list"

abbreviation EXIT_FAILURE :: int where "EXIT_FAILURE \<equiv> 1"

text \<open>
  The \<^verbatim>\<open>do ... while\<close> around the blocking \<^verbatim>\<open>waitpid\<close>: \<open>Some False\<close> is the failure other
  than \<^verbatim>\<open>ECHILD\<close>, \<open>Some True\<close> the loop left through \<^verbatim>\<open>break\<close> or its condition, \<open>None\<close>
  the wait that never comes back.
\<close>

fun wait_loop :: "wait_result list \<Rightarrow> bool option" where
  "wait_loop [] = None"
| "wait_loop (WaitFailed e # ws) = (if e \<noteq> ECHILD then Some False else Some True)"
| "wait_loop (WaitStatus st # ws) =
     (if \<not> (st = Exited \<or> st = Signaled) then wait_loop ws else Some True)"

text \<open>\<^verbatim>\<open>command_redirect_out\<close> and \<^verbatim>\<open>command_redirect_in\<close>, which run in the child:
  \<open>Inl\<close> is the child leaving through \<^verbatim>\<open>exit(EXIT_FAILURE)\<close>.\<close>

definition open_failed :: "string \<Rightarrow> event" where
  "open_failed name = Stderr (''Couldn't open file '' @ [CHR 0x27] @ name @ [CHR 0x27] @ ''.'' @ [NEWLINE])"

definition command_redirect_out :: "env \<Rightarrow> command_t \<Rightarrow> shell \<Rightarrow> shell + shell" where
  "command_redirect_out e c s =
    (case out c of
       None \<Rightarrow> Inr s
     | Some i \<Rightarrow>
        if \<not> open_out_ok e then Inl (emit (open_failed (c_string (buffer s) i)) s)
        else if \<not> dup2_out_ok e then Inl (emit (Perror ''dup2'') s)
        else Inr s)"

definition command_redirect_in :: "env \<Rightarrow> command_t \<Rightarrow> shell \<Rightarrow> shell + shell" where
  "command_redirect_in e c s =
    (case in' c of
       None \<Rightarrow> Inr s
     | Some i \<Rightarrow>
        if \<not> open_in_ok e then Inl (emit (open_failed (c_string (buffer s) i)) s)
        else if \<not> dup2_in_ok e then Inl (emit (Perror ''dup2'') s)
        else Inr s)"

text \<open>
  The strings of an argument array, as \<^verbatim>\<open>execvp\<close> reads them: one pointer after the other, up
  to the first null pointer. There is no defined result (\<open>None\<close>) when a slot that was never
  written is read, or when no null pointer ends the array and the read runs past it.
\<close>

fun arg_strings :: "string \<Rightarrow> cptr list \<Rightarrow> string list option" where
  "arg_strings b [] = None"
| "arg_strings b (Null # ps) = Some []"
| "arg_strings b (Garbage # ps) = None"
| "arg_strings b (Ptr i # ps) =
     (case arg_strings b ps of None \<Rightarrow> None | Some ss \<Rightarrow> Some (c_string b i # ss))"

text \<open>
  \<^verbatim>\<open>command_fork\<close>. The call of \<^verbatim>\<open>fork\<close> and the value it returned are recorded in the
  trace. The result says how the call ended, with the globals at that moment; \<open>None\<close> is
  the parent waiting for ever, or the child handing \<^verbatim>\<open>execvp\<close> an argument array that cannot
  be read.
\<close>

definition command_fork :: "env \<Rightarrow> command_t \<Rightarrow> shell \<Rightarrow> (control \<times> shell) option" where
  "command_fork e c s0 =
    (let c_pid = fork_ret e; s = emit (Fork c_pid) s0 in
     if c_pid < 0 then Some (Return (-1), emit (Perror ''fork'') s)
     else if c_pid > 0 then
       (if \<not> run_in_bg c then
          (case wait_loop (waits e) of
             None \<Rightarrow> None
           | Some False \<Rightarrow>
               Some (Return (-1), (emit (Perror ''waitpid'') (s\<lparr>fg_pid := c_pid\<rparr>))\<lparr>fg_pid := -1\<rparr>)
           | Some True \<Rightarrow> Some (Return 0, s\<lparr>fg_pid := c_pid\<rparr>\<lparr>fg_pid := -1\<rparr>))
        else
          (case node_alloc e of
             None \<Rightarrow> Some (Return (-1), emit (Perror ''malloc'') s)
           | Some a \<Rightarrow>
               let s1 = emit (started c_pid) s;
                   process = \<lparr>next = None, running = True, pid = c_pid\<rparr>;
                   s2 = (if bg_head s1 = None
                         then s1\<lparr>heap := (heap s1)(a \<mapsto> process), bg_head := Some a\<rparr>
                         else s1\<lparr>heap := (heap s1)(a \<mapsto> process\<lparr>next := bg_head s1\<rparr>),
                                 bg_head := Some a\<rparr>)
               in Some (Return 0, s2)))
     else
       (case command_redirect_out e c s of
          Inl s' \<Rightarrow> Some (ProcessExit EXIT_FAILURE, s')
        | Inr s1 \<Rightarrow>
           (case command_redirect_in e c s1 of
              Inl s' \<Rightarrow> Some (ProcessExit EXIT_FAILURE, s')
            | Inr s2 \<Rightarrow>
               (case args c of
                  None \<Rightarrow> None
                | Some ps \<Rightarrow>
                   (case arg_strings (buffer s2) ps of
                      None \<Rightarrow> None
                    | Some ss \<Rightarrow>
                       if execvp_ok e then Some (Exec ss, s2)
                       else Some (ProcessExit EXIT_FAILURE, emit (Perror ''execvp'') s2))))))"

text \<open>
  \<^verbatim>\<open>command_execute\<close>. The command is a local of the function and is cleared on every
  path, so only the return value and the globals come back. Reading \<^verbatim>\<open>args[0]\<close> from a
  slot that was never written, or comparing past the end of the buffer, has no defined
  result (\<open>None\<close>).
\<close>

definition command_execute :: "env \<Rightarrow> shell \<Rightarrow> (control \<times> shell) option" where
  "command_execute e s =
    (case command_parse (can_alloc e) s of
       (r, c, s1) \<Rightarrow>
         if r \<noteq> 0 then Some (Return (-1), s1)
         else
           (case args c of
              None \<Rightarrow> Some (Return 0, s1)
            | Some ps \<Rightarrow>
               (case ps ! 0 of
                  Garbage \<Rightarrow> None
                | Null \<Rightarrow> Some (Return 0, s1)
                | Ptr i \<Rightarrow>
                   (case strcmp_eq (drop i (buffer s1)) CMD_EXIT of
                      None \<Rightarrow> None
                    | Some True \<Rightarrow>
                       (case command_exit_handler s1 of
                          None \<Rightarrow> None
                        | Some s2 \<Rightarrow> Some (Return 0, s2))
                    | Some False \<Rightarrow>
                       (case command_fork e c s1 of
                          None \<Rightarrow> None
                        | Some (Return r', s2) \<Rightarrow> Some (Return 0, s2)
                        | Some (x, s2) \<Rightarrow> Some (x, s2))))))"

section \<open>Notions used in the statements\<close>

subsection \<open>Tokens of a line\<close>

text \<open>
  The three control characters; the characters a token is made of; the positions where a
  token starts (an ordinary character that does not follow one); the control character
  last met before a position (\<open>NUL\<close> when there is none); the token starts below \<open>n\<close>,
  those that are arguments and those that follow a given redirection character.
\<close>

definition is_marker :: "char \<Rightarrow> bool" where
  "is_marker c \<longleftrightarrow> c = RUN_IN_BG \<or> c = REDIR_OUT \<or> c = REDIR_IN"

definition ordinary :: "char \<Rightarrow> bool" where
  "ordinary c \<longleftrightarrow> \<not> isspace c \<and> c \<noteq> NUL \<and> \<not> is_marker c"

definition tok_start :: "string \<Rightarrow> nat \<Rightarrow> bool" where
  "tok_start b j \<longleftrightarrow> ordinary (b ! j) \<and> (j = 0 \<or> \<not> ordinary (b ! (j - 1)))"

definition mode :: "string \<Rightarrow> nat \<Rightarrow> char" where
  "mode b j = (case filter is_marker (rev (take j b)) of [] \<Rightarrow> NUL | m # _ \<Rightarrow> m)"

definition starts :: "string \<Rightarrow> nat \<Rightarrow> nat list" where
  "starts b n = filter (tok_start b) [0..<n]"

definition arg_starts :: "string \<Rightarrow> nat \<Rightarrow> nat list" where
  "arg_starts b n = filter (\<lambda>j. mode b j \<noteq> REDIR_IN \<and> mode b j \<noteq> REDIR_OUT) (starts b n)"

definition redir_starts :: "char \<Rightarrow> string \<Rightarrow> nat \<Rightarrow> nat list" where
  "redir_starts m b n = filter (\<lambda>j. mode b j = m) (starts b n)"

definition last_opt :: "'a list \<Rightarrow> 'a option" where
  "last_opt xs = (if xs = [] then None else Some (last xs))"

definition blank :: "char \<Rightarrow> char" where
  "blank c = (if ordinary c then c else NUL)"

definition parse_inv :: "string \<Rightarrow> nat \<Rightarrow> parse_state \<Rightarrow> bool" where
  "parse_inv b i st \<longleftrightarrow>
     buf st = map blank (take i b) @ drop i b \<and>
     token st = mode b i \<and>
     ignore st = (0 < i \<and> ordinary (b ! (i - 1))) \<and>
     run_in_bg (cmd st) = (RUN_IN_BG \<in> set (take i b)) \<and>
     in' (cmd st) = last_opt (redir_starts REDIR_IN b i) \<and>
     out (cmd st) = last_opt (redir_starts REDIR_OUT b i) \<and>
     args (cmd st) = None \<and>
     pos st = length (arg_starts b i) \<and>
     take (length (arg_starts b i)) (arr st) = map Ptr (arg_starts b i) \<and>
     length (arr st) = args_size st \<and>
     pos st < args_size st"


text \<open>The iterations of the loop at the indices \<open>is\<close>, in that order.\<close>

primrec parse_steps :: "(nat \<Rightarrow> bool) \<Rightarrow> nat list \<Rightarrow> parse_state \<Rightarrow> parse_state + parse_state" where
  "parse_steps ca [] st = Inr st"
| "parse_steps ca (i # is) st =
     (case parse_step ca i st of Inl st' \<Rightarrow> Inl st' | Inr st' \<Rightarrow> parse_steps ca is st')"

subsection \<open>A parsed command, read back as strings\<close>

text \<open>
  The argument strings (\<open>None\<close> when the array is null or cannot be read as a
  null-terminated sequence), the two redirection targets and the background flag; the
  tokens of such a view; the view of what \<^verbatim>\<open>command_parse\<close> returns, with its return value.
\<close>

definition command_view ::
  "command_t \<Rightarrow> shell \<Rightarrow> string list option \<times> string option \<times> string option \<times> bool" where
  "command_view c s =
     ((case args c of None \<Rightarrow> None | Some ps \<Rightarrow> arg_strings (buffer s) ps),
      map_option (c_string (buffer s)) (out c),
      map_option (c_string (buffer s)) (in' c),
      run_in_bg c)"

definition view_tokens ::
  "string list option \<times> string option \<times> string option \<times> bool \<Rightarrow> string set" where
  "view_tokens v =
     (case v of (as, o_target, i_target, bg) \<Rightarrow>
        (case as of None \<Rightarrow> {} | Some ss \<Rightarrow> set ss) \<union> set_option o_target \<union> set_option i_target)"

definition parse_view ::
  "(nat \<Rightarrow> bool) \<Rightarrow> shell \<Rightarrow> int \<times> string list option \<times> string option \<times> string option \<times> bool" where
  "parse_view ca s = (case command_parse ca s of (r, c, s') \<Rightarrow> (r, command_view c s'))"

text \<open>An allocator that grants every request.\<close>

definition alloc_ok :: "nat \<Rightarrow> bool" where
  "alloc_ok n = True"

text \<open>The globals when the program starts.\<close>

definition shell0 :: shell where
  "shell0 = \<lparr>interrupt = 0, fg_pid = -1, bg_head = None, heap = Map.empty,
             buffer = replicate BUFFER_SIZE NUL, new_command = 0, trace = []\<rparr>"

subsection \<open>Tokens and the marker they follow\<close>

text \<open>
  The token that starts at \<open>j\<close> begins immediately after the control character \<open>m\<close>:
  \<open>m\<close> stands before it with nothing but blank space in between. In \<open>single_target\<close>,
  a redirection character is followed by at most one token before the next control
  character.
\<close>

definition follows :: "char \<Rightarrow> string \<Rightarrow> nat \<Rightarrow> bool" where
  "follows m b j \<longleftrightarrow>
     tok_start b j \<and>
     (\<exists>i \<in> {..<j}. b ! i = m \<and> (\<forall>k \<in> {i<..<j}. isspace (b ! k) \<or> b ! k = NUL))"

definition single_target :: "string \<Rightarrow> nat \<Rightarrow> bool" where
  "single_target b n \<longleftrightarrow>
     (\<forall>j1 \<in> {..<n}. \<forall>j2 \<in> {j1<..<n}.
        tok_start b j1 \<and> tok_start b j2 \<and> (follows REDIR_IN b j1 \<or> follows REDIR_OUT b j1)
        \<longrightarrow> (\<exists>k \<in> {j1<..<j2}. is_marker (b ! k)))"

text \<open>Surroundings in which every call succeeds and the child of a foreground command
  has exited.\<close>

definition env0 :: env where
  "env0 = \<lparr>can_alloc = alloc_ok, fork_ret = 100, waits = [WaitStatus Exited], node_alloc = Some 0,
           open_out_ok = True, dup2_out_ok = True, open_in_ok = True, dup2_in_ok = True,
           execvp_ok = True\<rparr>"

subsection \<open>The registry as a list\<close>

text \<open>
  \<open>seg h p as q\<close>: following \<^verbatim>\<open>next\<close> from the pointer \<open>p\<close> visits the allocated nodes at the
  addresses \<open>as\<close>, in that order, and arrives at \<open>q\<close>. The registry that starts at \<open>p\<close> is
  the list \<open>as\<close> when the walk ends in the null pointer. \<open>node s a\<close> is the node at an
  allocated address, \<open>job_info\<close> what a job records about its process.
\<close>

primrec seg :: "(addr \<rightharpoonup> process_t) \<Rightarrow> addr option \<Rightarrow> addr list \<Rightarrow> addr option \<Rightarrow> bool" where
  "seg h p [] q \<longleftrightarrow> p = q"
| "seg h p (a # as) q \<longleftrightarrow>
     p = Some a \<and> (case h a of None \<Rightarrow> False | Some n \<Rightarrow> seg h (next n) as q)"

definition jobs_at :: "(addr \<rightharpoonup> process_t) \<Rightarrow> addr option \<Rightarrow> addr list \<Rightarrow> bool" where
  "jobs_at h p as \<longleftrightarrow> seg h p as None"

definition node :: "shell \<Rightarrow> addr \<Rightarrow> process_t" where
  "node s a = the (heap s a)"

definition job_info :: "process_t \<Rightarrow> int \<times> bool" where
  "job_info n = (pid n, running n)"

text \<open>
  What the loop of \<^verbatim>\<open>prompt_show\<close> has done to the globals \<open>s\<close> when it has walked the
  nodes \<open>rs\<close>, with the nodes \<open>ks\<close> before them kept: the terminated ones among \<open>rs\<close> are
  reported, unlinked and freed, and nothing else about any job has changed.
\<close>

definition reported :: "shell \<Rightarrow> addr list \<Rightarrow> addr list \<Rightarrow> shell \<Rightarrow> bool" where
  "reported s ks rs s' \<longleftrightarrow>
     seg (heap s') (bg_head s') (ks @ filter (\<lambda>a. running (node s a)) rs) None
   \<and> trace s' = trace s @ map (\<lambda>a. finished (pid (node s a))) (filter (\<lambda>a. \<not> running (node s a)) rs)
   \<and> (\<forall>a \<in> set rs. \<not> running (node s a) \<longrightarrow> heap s' a = None)
   \<and> (\<forall>a. \<not> (a \<in> set rs \<and> \<not> running (node s a)) \<longrightarrow>
          map_option job_info (heap s' a) = map_option job_info (heap s a))
   \<and> interrupt s' = interrupt s \<and> fg_pid s' = fg_pid s \<and> buffer s' = buffer s
   \<and> new_command s' = new_command s"

text \<open>A registry of two jobs: the first one has terminated, the second is running.\<close>

definition two_jobs :: shell where
  "two_jobs = shell0\<lparr>bg_head := Some 10,
                      heap := [10 \<mapsto> \<lparr>next = Some 20, running = False, pid = 41\<rparr>,
                               20 \<mapsto> \<lparr>next = None, running = True, pid = 42\<rparr>]\<rparr>"

text \<open>
  What the handler is to do with one reaped child, in the words of the specification: the
  foreground token is cleared when the identifier is the token; otherwise the first job of
  the registry \<open>as\<close> with that identifier, if there is one, gets its flag cleared, and
  nothing else changes.
\<close>

definition reap_one :: "addr list \<Rightarrow> shell \<Rightarrow> int \<Rightarrow> shell" where
  "reap_one as s c_pid =
     (if c_pid = fg_pid s then s\<lparr>fg_pid := -1\<rparr>
      else (case find (\<lambda>a. pid (node s a) = c_pid) as of
              None \<Rightarrow> s
            | Some a \<Rightarrow> s\<lparr>heap := (heap s)(a \<mapsto> (node s a)\<lparr>running := False\<rparr>)\<rparr>))"

text \<open>The two jobs with a foreground child 77 being waited for, and a kernel in which
  that child and the job 42 have terminated.\<close>

definition busy :: shell where
  "busy = two_jobs\<lparr>fg_pid := 77\<rparr>"

definition two_zombies :: kernel where
  "two_zombies = \<lparr>zombies = [77, 42], live = []\<rparr>"

text \<open>A foreground command, and surroundings in which the blocking wait first reports a
  stopped child and then fails: with \<^verbatim>\<open>ECHILD\<close> in the first, with \<^verbatim>\<open>EINTR\<close> in the
  second.\<close>

definition fg_cmd :: command_t where
  "fg_cmd = \<lparr>run_in_bg = False, args = Some [Ptr 0, Null, Null, Null], out = None, in' = None\<rparr>"

definition env_echild :: env where
  "env_echild = env0\<lparr>waits := [WaitStatus Stopped, WaitFailed ECHILD]\<rparr>"

definition env_eintr :: env where
  "env_eintr = env0\<lparr>waits := [WaitStatus Stopped, WaitFailed EINTR]\<rparr>"

section \<open>Properties of the parser\<close>

lemma mode_Suc: "i < length b \<Longrightarrow> mode b (Suc i) = (if is_marker (b ! i) then b ! i else mode b i)"
  by (simp add: mode_def take_Suc_conv_app_nth)

lemma starts_Suc: "starts b (Suc i) = (if tok_start b i then starts b i @ [i] else starts b i)"
  by (simp add: starts_def)

lemma arg_starts_Suc:
  "arg_starts b (Suc i) =
     (if tok_start b i \<and> mode b i \<noteq> REDIR_IN \<and> mode b i \<noteq> REDIR_OUT
      then arg_starts b i @ [i] else arg_starts b i)"
  by (simp add: arg_starts_def starts_Suc)

lemma redir_starts_Suc:
  "redir_starts m b (Suc i) =
     (if tok_start b i \<and> mode b i = m then redir_starts m b i @ [i] else redir_starts m b i)"
  by (simp add: redir_starts_def starts_Suc)

lemma blank_buf_nth:
  "i < length b \<Longrightarrow> (map blank (take i b) @ drop i b) ! i = b ! i"
  by (simp add: nth_append)

lemma blank_buf_upd:
  "i < length b \<Longrightarrow> (map blank (take i b) @ drop i b)[i := blank (b ! i)]
     = map blank (take (Suc i) b) @ drop (Suc i) b"
  by (simp add: take_Suc_conv_app_nth list_update_append upd_conv_take_nth_drop Cons_nth_drop_Suc [symmetric])

lemma marker_not_space: "is_marker c \<Longrightarrow> \<not> isspace c \<and> c \<noteq> NUL"
  by (auto simp: is_marker_def isspace_def)

lemma take_Suc_set: "i < length b \<Longrightarrow> set (take (Suc i) b) = insert (b ! i) (set (take i b))"
  by (simp add: take_Suc_conv_app_nth)

lemma tok_start_ignore:
  "tok_start b i \<longleftrightarrow> ordinary (b ! i) \<and> \<not> (0 < i \<and> ordinary (b ! (i - 1)))"
  by (auto simp: tok_start_def)

lemma parse_step_sep:
  assumes inv: "parse_inv b i st" and i: "i < length b"
    and c: "isspace (b ! i) \<or> b ! i = NUL"
  shows "\<exists>st'. parse_step ca i st = Inr st' \<and> parse_inv b (Suc i) st'"
proof -
  have no: "\<not> ordinary (b ! i)" "\<not> is_marker (b ! i)" "b ! i \<noteq> RUN_IN_BG"
    using c by (auto simp: ordinary_def is_marker_def isspace_def)
  have bi: "buf st ! i = b ! i"
    using inv i by (simp add: parse_inv_def blank_buf_nth)
  have step: "parse_step ca i st = Inr (st\<lparr>buf := (buf st)[i := NUL], ignore := False\<rparr>)"
    using c bi by (simp add: parse_step_def)
  have bl: "blank (b ! i) = NUL" using no by (simp add: blank_def)
  have "parse_inv b (Suc i) (st\<lparr>buf := (buf st)[i := NUL], ignore := False\<rparr>)"
    using inv i no blank_buf_upd [OF i] bl
    by (simp add: parse_inv_def mode_Suc take_Suc_set arg_starts_Suc redir_starts_Suc tok_start_ignore)
  with step show ?thesis by simp
qed

lemma parse_step_marker:
  assumes inv: "parse_inv b i st" and i: "i < length b"
    and c: "is_marker (b ! i)"
  shows "\<exists>st'. parse_step ca i st = Inr st' \<and> parse_inv b (Suc i) st'"
proof -
  have no: "\<not> ordinary (b ! i)" "\<not> isspace (b ! i)" "b ! i \<noteq> NUL"
    using c marker_not_space [OF c] by (auto simp: ordinary_def)
  have bi: "buf st ! i = b ! i"
    using inv i by (simp add: parse_inv_def blank_buf_nth)
  let ?st' = "st\<lparr>cmd := (if b ! i = RUN_IN_BG then (cmd st)\<lparr>run_in_bg := True\<rparr> else cmd st),
              token := b ! i, buf := (buf st)[i := NUL], ignore := False\<rparr>"
  have step: "parse_step ca i st = Inr ?st'"
    using c no bi by (simp add: parse_step_def is_marker_def)
  have bl: "blank (b ! i) = NUL" using no by (simp add: blank_def)
  have "parse_inv b (Suc i) ?st'"
    using inv i no c blank_buf_upd [OF i] bl
    by (simp add: parse_inv_def mode_Suc take_Suc_set arg_starts_Suc redir_starts_Suc tok_start_ignore)
  with step show ?thesis by simp
qed

lemma take_store_snoc:
  "take n xs = ys \<Longrightarrow> n < length xs \<Longrightarrow> take (Suc n) (xs[n := v]) = ys @ [v]"
  by (auto simp: take_Suc_conv_app_nth)

lemma store_full_snoc:
  "take n xs = ys \<Longrightarrow> n < length xs \<Longrightarrow> length xs \<le> Suc n \<Longrightarrow> xs[n := v] = ys @ [v]"
  using take_store_snoc [of n xs ys v] by simp

lemma parse_step_ordinary:
  assumes inv: "parse_inv b i st" and i: "i < length b"
    and c: "ordinary (b ! i)" and ca: "\<forall>n. ca n"
  shows "\<exists>st'. parse_step ca i st = Inr st' \<and> parse_inv b (Suc i) st'"
proof -
  have no: "\<not> is_marker (b ! i)" "\<not> isspace (b ! i)" "b ! i \<noteq> NUL"
    using c by (auto simp: ordinary_def)
  have bi: "buf st ! i = b ! i"
    using inv i by (simp add: parse_inv_def blank_buf_nth)
  have bl: "blank (b ! i) = b ! i" using c by (simp add: blank_def)
  have bufS: "buf st = map blank (take (Suc i) b) @ drop (Suc i) b"
    using inv blank_buf_upd [OF i] bl i
    by (metis blank_buf_nth list_update_id parse_inv_def)
  show ?thesis
    using inv i no c ca bi bufS
    apply (simp add: parse_step_def is_marker_def Let_def)
    apply (auto simp add: parse_inv_def mode_Suc take_Suc_set arg_starts_Suc redir_starts_Suc tok_start_ignore
        last_opt_def is_marker_def take_store_snoc store_full_snoc)
    done
qed

lemma parse_step_inv:
  assumes inv: "parse_inv b i st" and i: "i < length b" and ca: "\<forall>n. ca n"
  shows "\<exists>st'. parse_step ca i st = Inr st' \<and> parse_inv b (Suc i) st'"
proof -
  consider "isspace (b ! i) \<or> b ! i = NUL" | "is_marker (b ! i)" | "ordinary (b ! i)"
    by (auto simp: ordinary_def)
  then show ?thesis
    using parse_step_sep [OF inv i] parse_step_marker [OF inv i] parse_step_ordinary [OF inv i _ ca]
    by cases blast+
qed


lemma parse_loop_inv:
  assumes ca: "\<forall>n. ca n" and len: "EFFECTIVE_BUFFER_SIZE \<le> length b"
  shows "parse_inv b i st \<Longrightarrow> i \<le> EFFECTIVE_BUFFER_SIZE \<Longrightarrow>
     \<exists>st'. command_parse_loop ca i st = Inr st' \<and> parse_inv b EFFECTIVE_BUFFER_SIZE st'"
proof (induction "EFFECTIVE_BUFFER_SIZE - i" arbitrary: i st)
  case 0
  then have "i = EFFECTIVE_BUFFER_SIZE" by simp
  with "0.prems" show ?case by (simp add: command_parse_loop.simps)
next
  case (Suc d)
  then have i: "i < EFFECTIVE_BUFFER_SIZE" by simp
  then have "i < length b" using len by simp
  from parse_step_inv [OF Suc.prems(1) this ca]
  obtain st1 where st1: "parse_step ca i st = Inr st1" "parse_inv b (Suc i) st1" by blast
  have "d = EFFECTIVE_BUFFER_SIZE - Suc i" using Suc.hyps(2) by simp
  from Suc.hyps(1) [OF this st1(2)] i
  obtain st' where "command_parse_loop ca (Suc i) st1 = Inr st'" "parse_inv b EFFECTIVE_BUFFER_SIZE st'"
    by auto
  then show ?case using i st1(1)
    by (subst command_parse_loop.simps) simp
qed

lemma parse_inv_init: "parse_inv b 0 (parse_init b)"
  by (simp add: parse_inv_def parse_init_def mode_def arg_starts_def redir_starts_def starts_def
      last_opt_def)

lemma command_parse_char:
  assumes ca: "\<forall>n. ca n" and len: "length (buffer s) = BUFFER_SIZE"
  shows "\<exists>k. 0 < k \<and> command_parse ca s =
     (0, \<lparr>run_in_bg = (RUN_IN_BG \<in> set (take EFFECTIVE_BUFFER_SIZE (buffer s))),
          args = Some (map Ptr (arg_starts (buffer s) EFFECTIVE_BUFFER_SIZE) @ replicate k Null),
          out = last_opt (redir_starts REDIR_OUT (buffer s) EFFECTIVE_BUFFER_SIZE),
          in' = last_opt (redir_starts REDIR_IN (buffer s) EFFECTIVE_BUFFER_SIZE)\<rparr>,
      s\<lparr>buffer := map blank (take EFFECTIVE_BUFFER_SIZE (buffer s)) @ drop EFFECTIVE_BUFFER_SIZE (buffer s)\<rparr>)"
proof -
  let ?st0 = "parse_init (buffer s)"
  from parse_loop_inv [OF ca _ parse_inv_init, of "buffer s"] len
  obtain st where st: "command_parse_loop ca 0 ?st0 = Inr st" "parse_inv (buffer s) EFFECTIVE_BUFFER_SIZE st"
    by auto
  have nt: "null_terminate st = map Ptr (arg_starts (buffer s) EFFECTIVE_BUFFER_SIZE) @ replicate (args_size st - pos st) Null"
    using st(2) by (simp add: null_terminate_def parse_inv_def)
  have k: "0 < args_size st - pos st" using st(2) by (simp add: parse_inv_def)
  have c: "cmd st = \<lparr>run_in_bg = (RUN_IN_BG \<in> set (take EFFECTIVE_BUFFER_SIZE (buffer s))),
          args = None,
          out = last_opt (redir_starts REDIR_OUT (buffer s) EFFECTIVE_BUFFER_SIZE),
          in' = last_opt (redir_starts REDIR_IN (buffer s) EFFECTIVE_BUFFER_SIZE)\<rparr>"
    using st(2) by (simp add: parse_inv_def)
  have "command_parse ca s = (0, (cmd st)\<lparr>args := Some (null_terminate st)\<rparr>, s\<lparr>buffer := buf st\<rparr>)"
    using ca st(1) by (simp add: command_parse_def)
  then show ?thesis using nt k c st(2) 
    apply (intro exI [of _ "args_size st - pos st"])
    apply (simp add: parse_inv_def)
    done
qed


lemma parse_loop_steps:
  "i + n \<le> EFFECTIVE_BUFFER_SIZE \<Longrightarrow>
   command_parse_loop ca i st =
     (case parse_steps ca [i..<i + n] st of
        Inl st' \<Rightarrow> Inl st'
      | Inr st' \<Rightarrow> command_parse_loop ca (i + n) st')"
proof (induction n arbitrary: i st)
  case 0
  then show ?case by simp
next
  case (Suc n)
  then have i: "i < EFFECTIVE_BUFFER_SIZE" and "Suc i + n \<le> EFFECTIVE_BUFFER_SIZE" by simp_all
  have u: "[i..<i + Suc n] = i # [Suc i..<Suc i + n]" by (simp add: upt_conv_Cons)
  show ?case
    unfolding u using Suc.IH [OF \<open>Suc i + n \<le> EFFECTIVE_BUFFER_SIZE\<close>] i
    by (subst command_parse_loop.simps) (simp split: sum.splits)
qed

lemma parse_step_blank:
  "isspace (buf st ! i) \<or> buf st ! i = NUL \<Longrightarrow>
   parse_step ca i st = Inr (st\<lparr>buf := (buf st)[i := NUL], ignore := False\<rparr>)"
  by (simp add: parse_step_def)

lemma parse_loop_blank_run:
  assumes len: "EFFECTIVE_BUFFER_SIZE \<le> length (buf st)"
  shows "i \<le> EFFECTIVE_BUFFER_SIZE \<Longrightarrow> l = buf st \<Longrightarrow>
    \<forall>k. i \<le> k \<and> k < EFFECTIVE_BUFFER_SIZE \<longrightarrow> isspace (l ! k) \<or> l ! k = NUL \<Longrightarrow>
    command_parse_loop ca i st =
      Inr (st\<lparr>buf := take i l @ replicate (EFFECTIVE_BUFFER_SIZE - i) NUL
                    @ drop EFFECTIVE_BUFFER_SIZE l,
              ignore := (if i < EFFECTIVE_BUFFER_SIZE then False else ignore st)\<rparr>)"
  using len
proof (induction "EFFECTIVE_BUFFER_SIZE - i" arbitrary: i st l)
  case 0
  then have "i = EFFECTIVE_BUFFER_SIZE" by simp
  with "0.prems" show ?case by (simp add: command_parse_loop.simps)
next
  case (Suc d)
  then have i: "i < EFFECTIVE_BUFFER_SIZE" by simp
  let ?st1 = "st\<lparr>buf := (buf st)[i := NUL], ignore := False\<rparr>"
  have step: "parse_step ca i st = Inr ?st1"
    using Suc.prems i by (intro parse_step_blank) auto
  have d: "d = EFFECTIVE_BUFFER_SIZE - Suc i" using Suc.hyps(2) by simp
  have "command_parse_loop ca (Suc i) ?st1 =
      Inr (?st1\<lparr>buf := take (Suc i) (l[i := NUL]) @ replicate (EFFECTIVE_BUFFER_SIZE - Suc i) NUL
                    @ drop EFFECTIVE_BUFFER_SIZE (l[i := NUL]),
              ignore := (if Suc i < EFFECTIVE_BUFFER_SIZE then False else ignore ?st1)\<rparr>)"
    using Suc.prems i by (intro Suc.hyps(1) [OF d]) auto
  moreover have "take (Suc i) (l[i := NUL]) @ replicate (EFFECTIVE_BUFFER_SIZE - Suc i) NUL
       = take i l @ replicate (EFFECTIVE_BUFFER_SIZE - i) NUL"
    using i Suc.prems
    by (simp add: take_Suc_conv_app_nth replicate_append_same Suc_diff_Suc [symmetric])
  ultimately show ?case using i step
    by (subst command_parse_loop.simps) simp
qed


lemma fill_short: "length l \<le> BUFFER_SIZE \<Longrightarrow> fill l = l @ replicate (BUFFER_SIZE - length l) NUL"
  by (simp add: fill_def)

lemma garbage4: "replicate ARGS_SIZE Garbage = [Garbage, Garbage, Garbage, Garbage]"
  by (simp add: numeral_eq_Suc)

lemma upt17: "[0..<17] = [0,1,2,3,4,5,6,7,8,9,10,11,12,13,14,15,16]"
  by code_simp

lemma upt9: "[0..<9] = [0,1,2,3,4,5,6,7,8]"
  by code_simp

lemma nul_tail: "length p \<le> k \<Longrightarrow> k < length p + m \<Longrightarrow> (p @ replicate m c) ! k = c"
  by (simp add: nth_append)

lemma replicate_snoc: "n = Suc m \<Longrightarrow> replicate m c @ [c] = replicate n c"
  by (simp add: replicate_append_same)

lemma arg_strings_nulls: "0 < k \<Longrightarrow> arg_strings b (replicate k Null) = Some []"
  by (cases k) simp_all

lemma arg_strings_ptrs:
  "0 < k \<Longrightarrow> arg_strings b (map Ptr js @ replicate k Null) = Some (map (c_string b) js)"
  by (induction js) (simp_all add: arg_strings_nulls)

lemma c_string_chars: "set (c_string b j) \<subseteq> set b - {NUL}"
  unfolding c_string_def by (auto dest: set_takeWhileD in_set_dropD)

lemma blanked_chars:
  assumes "length b = BUFFER_SIZE" "b ! EFFECTIVE_BUFFER_SIZE = NUL"
  shows "set (map blank (take EFFECTIVE_BUFFER_SIZE b) @ drop EFFECTIVE_BUFFER_SIZE b) - {NUL} \<subseteq> {c. ordinary c}"
proof -
  have "drop EFFECTIVE_BUFFER_SIZE b = [NUL]"
    using assms by (metis Cons_nth_drop_Suc One_nat_def Suc_eq_plus1 add.commute drop_all lessI
        nat_le_linear numeral_plus_one semiring_norm(5) semiring_norm(8))
  then show ?thesis by (auto simp: blank_def)
qed

lemma parsed_tokens_ordinary:
  assumes ca: "\<forall>n. ca n" and len: "length (buffer s) = BUFFER_SIZE"
    and last: "buffer s ! EFFECTIVE_BUFFER_SIZE = NUL"
    and p: "command_parse ca s = (r, c, s')"
  shows "fst (command_view c s') \<noteq> None
    \<and> (\<forall>t \<in> view_tokens (command_view c s'). \<forall>x \<in> set t. ordinary x)"
proof -
  from command_parse_char [OF ca len] p obtain k where k: "0 < k" and
    c: "args c = Some (map Ptr (arg_starts (buffer s) EFFECTIVE_BUFFER_SIZE) @ replicate k Null)"
    and b: "buffer s' = map blank (take EFFECTIVE_BUFFER_SIZE (buffer s)) @ drop EFFECTIVE_BUFFER_SIZE (buffer s)"
    by auto
  have "set (c_string (buffer s') j) \<subseteq> {x. ordinary x}" for j
    using c_string_chars [of "buffer s'" j] blanked_chars [OF len last] b by auto
  then show ?thesis
    by (auto simp: view_tokens_def command_view_def c arg_strings_ptrs [OF k])
qed



lemma parse_step_frame:
  assumes "parse_step ca i st = Inr st'"
  shows "length (buf st') = length (buf st) \<and> (\<forall>k. k \<noteq> i \<longrightarrow> buf st' ! k = buf st ! k)"
  using assms by (auto simp: parse_step_def Let_def split: if_splits)

lemma parse_steps_frame:
  "parse_steps ca is st = Inr st' \<Longrightarrow>
   length (buf st') = length (buf st) \<and> (\<forall>k. k \<notin> set is \<longrightarrow> buf st' ! k = buf st ! k)"
proof (induction "is" arbitrary: st)
  case Nil
  then show ?case by simp
next
  case (Cons i "is")
  then obtain st1 where s1: "parse_step ca i st = Inr st1" and s2: "parse_steps ca is st1 = Inr st'"
    by (auto split: sum.splits)
  from parse_step_frame [OF s1] Cons.IH [OF s2] show ?case by auto
qed

text \<open>A line shorter than the buffer: the loop is decided by its first \<open>length p\<close> steps.\<close>

lemma parse_line:
  assumes ca: "ca ARGS_SIZE" and n: "length p \<le> EFFECTIVE_BUFFER_SIZE"
    and steps: "parse_steps ca [0..<length p] (parse_init (fill p)) = Inr st"
  shows "command_parse ca (s\<lparr>buffer := fill p\<rparr>) =
           (0, (cmd st)\<lparr>args := Some (null_terminate st)\<rparr>, s\<lparr>buffer := buf st\<rparr>)"
proof -
  let ?n = "length p"
  have fp: "fill p = p @ replicate (BUFFER_SIZE - ?n) NUL" using n by (simp add: fill_short)
  from parse_steps_frame [OF steps]
  have len: "length (buf st) = BUFFER_SIZE"
    and same: "\<And>k. ?n \<le> k \<Longrightarrow> buf st ! k = fill p ! k"
    by (auto simp: parse_init_def fill_def)
  have nul: "buf st ! k = NUL" if "?n \<le> k" "k < BUFFER_SIZE" for k
    using same [OF that(1)] that n by (simp add: fp nul_tail)
  have "command_parse_loop ca 0 (parse_init (fill p)) = command_parse_loop ca ?n st"
    using parse_loop_steps [of 0 ?n ca "parse_init (fill p)"] steps n by simp
  also have "\<dots> = Inr (st\<lparr>buf := take ?n (buf st) @ replicate (EFFECTIVE_BUFFER_SIZE - ?n) NUL
                    @ drop EFFECTIVE_BUFFER_SIZE (buf st),
              ignore := (if ?n < EFFECTIVE_BUFFER_SIZE then False else ignore st)\<rparr>)"
    using n len nul by (intro parse_loop_blank_run) auto
  also have "take ?n (buf st) @ replicate (EFFECTIVE_BUFFER_SIZE - ?n) NUL
                    @ drop EFFECTIVE_BUFFER_SIZE (buf st) = buf st"
    using n len nul by (auto simp: list_eq_iff_nth_eq nth_append)
  finally have "command_parse_loop ca 0 (parse_init (fill p))
      = Inr (st\<lparr>ignore := (if ?n < EFFECTIVE_BUFFER_SIZE then False else ignore st)\<rparr>)"
    by simp
  then show ?thesis using ca
    by (simp add: command_parse_def null_terminate_def)
qed

lemma parse_echo:
  assumes ca: "ca ARGS_SIZE"
  shows "command_parse ca (s\<lparr>buffer := fill ''echo hi > out.txt''\<rparr>) =
    (0, \<lparr>run_in_bg = False, args = Some [Ptr 0, Ptr 5, Null, Null], out = Some 10, in' = None\<rparr>,
     s\<lparr>buffer := ''echo'' @ [NUL] @ ''hi'' @ [NUL, NUL, NUL] @ ''out.txt'' @ replicate 496 NUL\<rparr>)"
proof -
  let ?st = "\<lparr>cmd = \<lparr>run_in_bg = False, args = None, out = Some 10, in' = None\<rparr>,
                  arr = [Ptr 0, Ptr 5, Garbage, Garbage], args_size = ARGS_SIZE,
                  token = REDIR_OUT, ignore = True, pos = 2, 
                  buf = ''echo'' @ [NUL] @ ''hi'' @ [NUL, NUL, NUL] @ ''out.txt'' @ replicate 496 NUL\<rparr>"
  have "parse_steps ca [0..<length ''echo hi > out.txt''] (parse_init (fill ''echo hi > out.txt'')) = Inr ?st"
    by (simp add: upt17 garbage4 parse_init_def fill_short parse_step_def isspace_def Let_def)
  from parse_line [OF ca _ this] show ?thesis
    by (simp add: null_terminate_def numeral_2_eq_2)
qed


lemma mode_0: "mode b 0 = NUL"
  by (simp add: mode_def)

lemma mode_after_marker:
  "i < j \<Longrightarrow> j \<le> length b \<Longrightarrow> is_marker (b ! i) \<Longrightarrow> \<forall>k \<in> {i<..<j}. \<not> is_marker (b ! k) \<Longrightarrow>
   mode b j = b ! i"
proof (induction j)
  case 0
  then show ?case by simp
next
  case (Suc j)
  show ?case
  proof (cases "i = j")
    case True
    with Suc.prems show ?thesis by (simp add: mode_Suc)
  next
    case False
    with Suc.prems have "i < j" "j \<le> length b" "\<forall>k \<in> {i<..<j}. \<not> is_marker (b ! k)" "\<not> is_marker (b ! j)"
      by auto
    with Suc.IH Suc.prems show ?thesis by (simp add: mode_Suc)
  qed
qed

lemma mode_marker_pos:
  "is_marker (mode b j) \<Longrightarrow> j \<le> length b \<Longrightarrow>
   \<exists>i<j. b ! i = mode b j \<and> (\<forall>k \<in> {i<..<j}. \<not> is_marker (b ! k))"
proof (induction j)
  case 0
  then show ?case by (simp add: mode_0 is_marker_def)
next
  case (Suc j)
  show ?case
  proof (cases "is_marker (b ! j)")
    case True
    with Suc.prems show ?thesis by (intro exI [of _ j]) (auto simp: mode_Suc)
  next
    case False
    with Suc.prems have m: "mode b (Suc j) = mode b j" by (simp add: mode_Suc)
    with Suc obtain i where "i < j" "b ! i = mode b j" "\<forall>k \<in> {i<..<j}. \<not> is_marker (b ! k)"
      by auto
    with False m show ?thesis
      by (intro exI [of _ i]) (auto simp: less_Suc_eq)
  qed
qed

lemma blank_cases: "\<not> ordinary c \<Longrightarrow> \<not> is_marker c \<Longrightarrow> isspace c \<or> c = NUL"
  by (auto simp: ordinary_def)

lemma follows_mode:
  assumes f: "follows m b j" and m: "is_marker m" and j: "j \<le> length b"
  shows "mode b j = m"
proof -
  from f obtain i where i: "i < j" "b ! i = m" "\<forall>k \<in> {i<..<j}. isspace (b ! k) \<or> b ! k = NUL"
    by (auto simp: follows_def)
  then have "\<forall>k \<in> {i<..<j}. \<not> is_marker (b ! k)"
    using marker_not_space by blast
  from mode_after_marker [OF i(1) j _ this] i(2) m show ?thesis by simp
qed

lemma mode_follows:
  assumes st: "single_target b n" and j: "j < n" "n \<le> length b"
    and t: "tok_start b j" and m: "mode b j = m" "m = REDIR_IN \<or> m = REDIR_OUT"
  shows "follows m b j"
proof -
  have mm: "is_marker (mode b j)" using m by (auto simp: is_marker_def)
  from mode_marker_pos [OF mm] j obtain i where
    i: "i < j" "b ! i = m" "\<forall>k \<in> {i<..<j}. \<not> is_marker (b ! k)"
    using m by auto
  have "\<forall>k \<in> {i<..<j}. \<not> ordinary (b ! k)"
  proof (rule ccontr)
    assume "\<not> (\<forall>k \<in> {i<..<j}. \<not> ordinary (b ! k))"
    then have ex: "\<exists>k. i < k \<and> k < j \<and> ordinary (b ! k)" by auto
    define k0 where "k0 = (LEAST k. i < k \<and> k < j \<and> ordinary (b ! k))"
    from LeastI_ex [OF ex] have k0: "i < k0" "k0 < j" "ordinary (b ! k0)"
      by (simp_all add: k0_def)
    have least: "\<not> ordinary (b ! k)" if "i < k" "k < k0" for k
      using not_less_Least [of k "\<lambda>k. i < k \<and> k < j \<and> ordinary (b ! k)"] that k0(2)
      by (auto simp: k0_def)
    have bi: "\<not> ordinary (b ! i)" using i(2) m(2) by (auto simp: ordinary_def is_marker_def)
    have prev: "\<not> ordinary (b ! (k0 - 1))"
    proof (cases "k0 - 1 = i")
      case True
      with bi show ?thesis by simp
    next
      case False
      with k0(1) have "i < k0 - 1" "k0 - 1 < k0" by auto
      then show ?thesis by (rule least)
    qed
    have ts: "tok_start b k0" using k0(3) prev by (simp add: tok_start_def)
    have "isspace (b ! k) \<or> b ! k = NUL" if "k \<in> {i<..<k0}" for k
    proof (rule blank_cases)
      from that show "\<not> ordinary (b ! k)" by (intro least) auto
      from that i(3) k0(2) show "\<not> is_marker (b ! k)" by auto
    qed
    then have "\<forall>k \<in> {i<..<k0}. isspace (b ! k) \<or> b ! k = NUL" by blast
    with ts i(1,2) k0(1) have "follows m b k0" by (auto simp: follows_def)
    have "k0 \<in> {..<n}" "j \<in> {k0<..<n}" using k0(2) j(1) by auto
    with st ts t \<open>follows m b k0\<close> m(2) have "\<exists>k \<in> {k0<..<j}. is_marker (b ! k)"
      unfolding single_target_def by (elim ballE [of _ _ k0] ballE [of _ _ j]) auto
    with i(3) k0(1) show False by auto
  qed
  with i(3) have "\<forall>k \<in> {i<..<j}. isspace (b ! k) \<or> b ! k = NUL"
    by (intro ballI blank_cases) auto
  with t i(1,2) show ?thesis by (auto simp: follows_def)
qed


lemma arg_starts_filter:
  "arg_starts b n = filter (\<lambda>j. tok_start b j \<and> mode b j \<noteq> REDIR_IN \<and> mode b j \<noteq> REDIR_OUT) [0..<n]"
  by (simp add: arg_starts_def starts_def)

lemma redir_starts_filter:
  "redir_starts m b n = filter (\<lambda>j. tok_start b j \<and> mode b j = m) [0..<n]"
  by (simp add: redir_starts_def starts_def)

lemma last_opt_in: "last_opt xs = Some x \<Longrightarrow> x \<in> set xs"
  by (auto simp: last_opt_def split: if_splits)

lemma redirect_marker: "m = REDIR_IN \<or> m = REDIR_OUT \<Longrightarrow> is_marker m"
  by (auto simp: is_marker_def)

lemma follows_tok_start: "follows m b j \<Longrightarrow> tok_start b j"
  by (simp add: follows_def)

lemma redir_starts_follows:
  assumes st: "single_target b n" and n: "n \<le> length b" and m: "m = REDIR_IN \<or> m = REDIR_OUT"
  shows "redir_starts m b n = filter (follows m b) [0..<n]"
  unfolding redir_starts_filter
proof (rule filter_cong [OF refl])
  fix j assume "j \<in> set [0..<n]"
  then have j: "j < n" by simp
  show "(tok_start b j \<and> mode b j = m) = follows m b j"
    using mode_follows [OF st j n _ _ m] follows_mode [OF _ redirect_marker [OF m], of b j]
      follows_tok_start [of m b j] j n by auto
qed

lemma arg_starts_follows:
  assumes st: "single_target b n" and n: "n \<le> length b"
  shows "arg_starts b n =
    filter (\<lambda>j. tok_start b j \<and> \<not> follows REDIR_IN b j \<and> \<not> follows REDIR_OUT b j) [0..<n]"
  unfolding arg_starts_filter
proof (rule filter_cong [OF refl])
  fix j assume "j \<in> set [0..<n]"
  then have j: "j < n" by simp
  have 1: "tok_start b j \<Longrightarrow> mode b j = REDIR_IN \<Longrightarrow> follows REDIR_IN b j"
    using mode_follows [OF st j n, of REDIR_IN] by simp
  have 2: "tok_start b j \<Longrightarrow> mode b j = REDIR_OUT \<Longrightarrow> follows REDIR_OUT b j"
    using mode_follows [OF st j n, of REDIR_OUT] by simp
  have 3: "follows REDIR_IN b j \<Longrightarrow> mode b j = REDIR_IN"
    using follows_mode [of REDIR_IN b j] j n by (simp add: is_marker_def)
  have 4: "follows REDIR_OUT b j \<Longrightarrow> mode b j = REDIR_OUT"
    using follows_mode [of REDIR_OUT b j] j n by (simp add: is_marker_def)
  show "(tok_start b j \<and> mode b j \<noteq> REDIR_IN \<and> mode b j \<noteq> REDIR_OUT) =
        (tok_start b j \<and> \<not> follows REDIR_IN b j \<and> \<not> follows REDIR_OUT b j)"
    using 1 2 3 4 by blast
qed


lemma upt15: "[0..<15] = [0,1,2,3,4,5,6,7,8,9,10,11,12,13,14]"
  by code_simp

lemma upt11: "[0..<11] = [0,1,2,3,4,5,6,7,8,9,10]"
  by code_simp

lemma upt4: "[0..<4] = [0,1,2,3]"
  by code_simp

lemma parse_sleep:
  assumes ca: "ca ARGS_SIZE"
  shows "command_parse ca (s\<lparr>buffer := fill ''sleep 5 &''\<rparr>) =
    (0, \<lparr>run_in_bg = True, args = Some [Ptr 0, Ptr 6, Null, Null], out = None, in' = None\<rparr>,
     s\<lparr>buffer := ''sleep'' @ [NUL] @ ''5'' @ [NUL, NUL] @ replicate 504 NUL\<rparr>)"
proof -
  let ?st = "\<lparr>cmd = \<lparr>run_in_bg = True, args = None, out = None, in' = None\<rparr>,
                  arr = [Ptr 0, Ptr 6, Garbage, Garbage], args_size = ARGS_SIZE,
                  token = RUN_IN_BG, ignore = False, pos = 2,
                  buf = ''sleep'' @ [NUL] @ ''5'' @ [NUL, NUL] @ replicate 504 NUL\<rparr>"
  have "parse_steps ca [0..<length ''sleep 5 &''] (parse_init (fill ''sleep 5 &'')) = Inr ?st"
    by (simp add: upt9 garbage4 parse_init_def fill_short parse_step_def isspace_def Let_def)
  from parse_line [OF ca _ this] show ?thesis
    by (simp add: null_terminate_def numeral_2_eq_2)
qed

lemma parse_extra:
  assumes ca: "ca ARGS_SIZE"
  shows "command_parse ca (s\<lparr>buffer := fill ''cat > out extra''\<rparr>) =
    (0, \<lparr>run_in_bg = False, args = Some [Ptr 0, Null, Null, Null], out = Some 10, in' = None\<rparr>,
     s\<lparr>buffer := ''cat'' @ [NUL, NUL, NUL] @ ''out'' @ [NUL] @ ''extra'' @ replicate 498 NUL\<rparr>)"
proof -
  let ?st = "\<lparr>cmd = \<lparr>run_in_bg = False, args = None, out = Some 10, in' = None\<rparr>,
                  arr = [Ptr 0, Garbage, Garbage, Garbage], args_size = ARGS_SIZE,
                  token = REDIR_OUT, ignore = True, pos = 1,
                  buf = ''cat'' @ [NUL, NUL, NUL] @ ''out'' @ [NUL] @ ''extra'' @ replicate 498 NUL\<rparr>"
  have "parse_steps ca [0..<length ''cat > out extra''] (parse_init (fill ''cat > out extra'')) = Inr ?st"
    by (simp add: upt15 garbage4 parse_init_def fill_short parse_step_def isspace_def Let_def)
  from parse_line [OF ca _ this] show ?thesis
    by (simp add: null_terminate_def numeral_3_eq_3)
qed

lemma parse_twice:
  assumes ca: "ca ARGS_SIZE"
  shows "command_parse ca (s\<lparr>buffer := fill ''cat < a < b''\<rparr>) =
    (0, \<lparr>run_in_bg = False, args = Some [Ptr 0, Null, Null, Null], out = None, in' = Some 10\<rparr>,
     s\<lparr>buffer := ''cat'' @ [NUL, NUL, NUL] @ ''a'' @ [NUL, NUL, NUL] @ ''b'' @ replicate 502 NUL\<rparr>)"
proof -
  let ?st = "\<lparr>cmd = \<lparr>run_in_bg = False, args = None, out = None, in' = Some 10\<rparr>,
                  arr = [Ptr 0, Garbage, Garbage, Garbage], args_size = ARGS_SIZE,
                  token = REDIR_IN, ignore = True, pos = 1,
                  buf = ''cat'' @ [NUL, NUL, NUL] @ ''a'' @ [NUL, NUL, NUL] @ ''b'' @ replicate 502 NUL\<rparr>"
  have "parse_steps ca [0..<length ''cat < a < b''] (parse_init (fill ''cat < a < b'')) = Inr ?st"
    by (simp add: upt11 garbage4 parse_init_def fill_short parse_step_def isspace_def Let_def)
  from parse_line [OF ca _ this] show ?thesis
    by (simp add: null_terminate_def numeral_3_eq_3)
qed

lemma parse_short:
  assumes ca: "ca ARGS_SIZE"
  shows "command_parse ca (s\<lparr>buffer := fill ''a >b''\<rparr>) =
    (0, \<lparr>run_in_bg = False, args = Some [Ptr 0, Null, Null, Null], out = Some 3, in' = None\<rparr>,
     s\<lparr>buffer := ''a'' @ [NUL, NUL] @ ''b'' @ replicate 509 NUL\<rparr>)"
proof -
  let ?st = "\<lparr>cmd = \<lparr>run_in_bg = False, args = None, out = Some 3, in' = None\<rparr>,
                  arr = [Ptr 0, Garbage, Garbage, Garbage], args_size = ARGS_SIZE,
                  token = REDIR_OUT, ignore = True, pos = 1,
                  buf = ''a'' @ [NUL, NUL] @ ''b'' @ replicate 509 NUL\<rparr>"
  have "parse_steps ca [0..<length ''a >b''] (parse_init (fill ''a >b'')) = Inr ?st"
    by (simp add: upt4 garbage4 parse_init_def fill_short parse_step_def isspace_def Let_def)
  from parse_line [OF ca _ this] show ?thesis
    by (simp add: null_terminate_def numeral_3_eq_3)
qed

lemma tok_start_short:
  assumes "tok_start (fill ''a >b'') j" "j < EFFECTIVE_BUFFER_SIZE"
  shows "j = 0 \<or> j = 3"
proof (cases "j < 4")
  case True
  then have "j = 0 \<or> j = 1 \<or> j = 2 \<or> j = 3" by auto
  with assms show ?thesis
    by (auto simp: fill_short tok_start_def ordinary_def isspace_def is_marker_def)
next
  case False
  then have "fill ''a >b'' ! j = NUL"
    using nul_tail [of "''a >b''" j 509 NUL] assms(2) by (simp add: fill_short)
  with assms show ?thesis by (simp add: tok_start_def ordinary_def)
qed

lemma single_target_short: "single_target (fill ''a >b'') EFFECTIVE_BUFFER_SIZE"
  unfolding single_target_def
proof (intro ballI impI)
  fix j1 j2
  assume j1: "j1 \<in> {..<EFFECTIVE_BUFFER_SIZE}" and j2: "j2 \<in> {j1<..<EFFECTIVE_BUFFER_SIZE}"
    and h: "tok_start (fill ''a >b'') j1 \<and> tok_start (fill ''a >b'') j2 \<and>
       (follows REDIR_IN (fill ''a >b'') j1 \<or> follows REDIR_OUT (fill ''a >b'') j1)"
  from tok_start_short [of j1] tok_start_short [of j2] h j1 j2 have "j1 = 0" by auto
  with h have False by (auto simp: follows_def)
  then show "\<exists>k\<in>{j1<..<j2}. is_marker (fill ''a >b'' ! k)" ..
qed

lemma ptrs_nulls_inj:
  "map Ptr A @ replicate k Null = map Ptr B @ replicate k' Null \<Longrightarrow> A = B"
proof (induction A arbitrary: B)
  case Nil
  then show ?case by (cases B; cases k) auto
next
  case (Cons a A)
  then show ?case by (cases B; cases k') auto
qed


lemma null4: "replicate ARGS_SIZE Null = [Null, Null, Null, Null]"
  by (simp add: numeral_eq_Suc)

lemma parse_blank:
  assumes ca: "ca ARGS_SIZE" and len: "length (buffer s) = BUFFER_SIZE"
    and blank: "\<forall>i \<in> {..<EFFECTIVE_BUFFER_SIZE}. isspace (buffer s ! i) \<or> buffer s ! i = NUL"
  shows "command_parse ca s =
    (0, \<lparr>run_in_bg = False, args = Some [Null, Null, Null, Null], out = None, in' = None\<rparr>,
     s\<lparr>buffer := replicate EFFECTIVE_BUFFER_SIZE NUL @ drop EFFECTIVE_BUFFER_SIZE (buffer s)\<rparr>)"
proof -
  have "command_parse_loop ca 0 (parse_init (buffer s)) =
      Inr ((parse_init (buffer s))\<lparr>buf := take 0 (buffer s) @ replicate (EFFECTIVE_BUFFER_SIZE - 0) NUL
                    @ drop EFFECTIVE_BUFFER_SIZE (buffer s),
              ignore := (if 0 < EFFECTIVE_BUFFER_SIZE then False else ignore (parse_init (buffer s)))\<rparr>)"
    using len blank by (intro parse_loop_blank_run) (auto simp: parse_init_def)
  then show ?thesis using ca
    by (simp add: command_parse_def null_terminate_def parse_init_def null4)
qed

section \<open>Properties of the line source\<close>

text \<open>What \<^verbatim>\<open>getchar\<close> hands out is the next byte of the held bytes followed by the unread
  ones, whatever the stream takes at a time.\<close>

lemma getchar_empty:
  "fst st @ snd st = [] \<Longrightarrow> getchar refill st = (-1, ([], []))"
  by (simp add: getchar_def)

lemma getchar_next:
  assumes "fst st @ snd st = c # cs"
  shows "fst (getchar refill st) = of_char c
       \<and> fst (snd (getchar refill st)) @ snd (snd (getchar refill st)) = cs"
proof (cases "fst st")
  case (Cons d ds)
  with assms show ?thesis by (simp add: getchar_def)
next
  case Nil
  with assms have i: "snd st = c # cs" by simp
  have "take (refill (snd st)) cs @ drop (refill (snd st)) cs = cs" by simp
  with Nil i show ?thesis by (simp add: getchar_def)
qed

lemma of_char_newline: "(of_char c :: int) = of_char NEWLINE \<longleftrightarrow> c = NEWLINE"
  by (rule of_char_eq_iff)


lemma drain_line_Some:
  assumes "drain_line refill st0 = Some st0'"
  shows "\<exists>pre. fst st0 @ snd st0 = pre @ NEWLINE # (fst st0' @ snd st0') \<and> NEWLINE \<notin> set pre"
proof (rule drain_line.raw_induct
    [where P = "\<lambda>rf st st'. \<exists>pre. fst st @ snd st = pre @ NEWLINE # (fst st' @ snd st')
                                   \<and> NEWLINE \<notin> set pre", OF _ assms])
  fix drain :: "(string \<Rightarrow> nat) \<Rightarrow> string \<times> string \<Rightarrow> (string \<times> string) option"
    and rf st st'
  assume IH: "\<And>rf x y. drain rf x = Some y \<Longrightarrow>
        \<exists>pre. fst x @ snd x = pre @ NEWLINE # (fst y @ snd y) \<and> NEWLINE \<notin> set pre"
    and body: "(if fst (getchar rf st) \<noteq> of_char NEWLINE
      then drain rf (snd (getchar rf st)) else Some (snd (getchar rf st))) = Some st'"
  show "\<exists>pre. fst st @ snd st = pre @ NEWLINE # (fst st' @ snd st') \<and> NEWLINE \<notin> set pre"
  proof (cases "fst st @ snd st")
    case Nil
    then have g: "getchar rf st = (-1, ([], []))" by (rule getchar_empty)
    with body have "drain rf ([], []) = Some st'" by simp
    from IH [OF this] show ?thesis by simp
  next
    case (Cons c cs)
    from getchar_next [OF Cons, of rf]
    have g: "fst (getchar rf st) = of_char c"
      "fst (snd (getchar rf st)) @ snd (snd (getchar rf st)) = cs"
      by simp_all
    show ?thesis
    proof (cases "c = NEWLINE")
      case True
      with g(1) body have "snd (getchar rf st) = st'" by simp
      with g(2) Cons True have "fst st @ snd st = [] @ NEWLINE # (fst st' @ snd st') \<and> NEWLINE \<notin> set []"
        by simp
      then show ?thesis by blast
    next
      case False
      with g(1) have "fst (getchar rf st) \<noteq> of_char NEWLINE"
        by (simp only: of_char_newline) simp
      with body have "drain rf (snd (getchar rf st)) = Some st'" by simp
      from IH [OF this] g(2) obtain pre where
        "cs = pre @ NEWLINE # (fst st' @ snd st')" "NEWLINE \<notin> set pre" by auto
      with Cons False have "fst st @ snd st = (c # pre) @ NEWLINE # (fst st' @ snd st')
          \<and> NEWLINE \<notin> set (c # pre)" by simp
      then show ?thesis by blast
    qed
  qed
qed

lemma drain_line_no_newline:
  "NEWLINE \<notin> set (fst st @ snd st) \<Longrightarrow> drain_line refill st = None"
proof (rule ccontr)
  assume n: "NEWLINE \<notin> set (fst st @ snd st)" and "drain_line refill st \<noteq> None"
  then obtain st' where "drain_line refill st = Some st'" by auto
  from drain_line_Some [OF this] obtain pre where
    "fst st @ snd st = pre @ NEWLINE # (fst st' @ snd st')" by blast
  then have "NEWLINE \<in> set (fst st @ snd st)" by (simp only: set_append) simp
  with n show False by simp
qed


lemma emit_fields [simp]:
  "trace (emit e s) = trace s @ [e]" "buffer (emit e s) = buffer s" "heap (emit e s) = heap s"
  "bg_head (emit e s) = bg_head s" "fg_pid (emit e s) = fg_pid s"
  "interrupt (emit e s) = interrupt s" "new_command (emit e s) = new_command s"
  by (simp_all add: emit_def)


lemma fill_nth: "k < length data \<Longrightarrow> k < BUFFER_SIZE \<Longrightarrow> fill data ! k = data ! k"
  by (simp add: fill_def nth_append)

lemma fill_nul: "length data \<le> k \<Longrightarrow> k < BUFFER_SIZE \<Longrightarrow> fill data ! k = NUL"
  by (simp add: fill_def nth_append)


lemma input_read_too_long_drain:
  assumes "BUFFER_SIZE \<le> length inp" "inp ! EFFECTIVE_BUFFER_SIZE \<noteq> NEWLINE"
  shows "input_read refill 513 (held, inp) s =
     (case drain_line refill (held, drop BUFFER_SIZE inp) of
        None \<Rightarrow> None
      | Some rest \<Rightarrow> Some (-1, rest, emit too_long (s\<lparr>buffer := fill (take BUFFER_SIZE inp)\<rparr>)))"
  using assms by (simp add: input_read_def Let_def fill_nth)



lemma input_read_accepts:
  assumes n: "1 \<le> num_bytes" "num_bytes \<le> 512" and inp: "nat num_bytes \<le> length inp"
  shows "input_read refill num_bytes (held, inp) s =
     (if inp ! (nat num_bytes - 1) = NEWLINE
      then Some (0, (held, drop (nat num_bytes) inp),
                 s\<lparr>buffer := (fill (take (nat num_bytes) inp))[nat num_bytes - 1 := NUL]\<rparr>)
      else Some (0, (held, drop (nat num_bytes) inp),
                 emit (Stdout [NEWLINE])
                   (s\<lparr>buffer := (fill (take (nat num_bytes) inp))[nat num_bytes := NUL]\<rparr>)))"
  using assms by (simp add: input_read_def Let_def fill_nth)


section \<open>Properties of the registry\<close>

lemma seg_None [simp]: "seg h None as q \<longleftrightarrow> as = [] \<and> q = None"
  by (cases as) auto

lemma seg_append: "seg h p (xs @ ys) q \<longleftrightarrow> (\<exists>r. seg h p xs r \<and> seg h r ys q)"
  by (induction xs arbitrary: p) (auto split: option.splits)

lemma seg_frame: "\<forall>a \<in> set as. h' a = h a \<Longrightarrow> seg h' p as q = seg h p as q"
  by (induction as arbitrary: p) (auto split: option.splits)

lemma seg_unique: "seg h p as None \<Longrightarrow> seg h p bs None \<Longrightarrow> as = bs"
proof (induction as arbitrary: p bs)
  case Nil
  then show ?case by simp
next
  case (Cons a as)
  then show ?case by (cases bs) (auto split: option.splits)
qed

lemma seg_distinct: "seg h p as None \<Longrightarrow> distinct as"
proof (induction as arbitrary: p)
  case Nil
  then show ?case by simp
next
  case (Cons a as)
  then obtain n :: process_t where n: "h a = Some n" "seg h (next n) as None"
    by (auto split: option.splits)
  have "a \<notin> set as"
  proof
    assume "a \<in> set as"
    then obtain xs ys where as: "as = xs @ a # ys" by (meson split_list)
    with n(2) obtain r where "seg h r (a # ys) None" by (auto simp: seg_append)
    then have "seg h (Some a) (a # ys) None" by (cases r) auto
    moreover from Cons.prems have "seg h (Some a) (a # as) None" by simp
    ultimately have "a # ys = a # as" by (rule seg_unique)
    with as show False by simp
  qed
  with Cons.IH [OF n(2)] show ?case by simp
qed

lemma seg_allocated: "seg h p as q \<Longrightarrow> a \<in> set as \<Longrightarrow> \<exists>n. h a = Some n"
  by (induction as arbitrary: p) (auto split: option.splits)

lemma seg_snoc:
  "seg h p (xs @ [a]) q \<longleftrightarrow> (\<exists>n. seg h p xs (Some a) \<and> h a = Some n \<and> next n = q)"
  by (auto simp: seg_append split: option.splits)


lemma last_opt_None: "last_opt ks = None \<longleftrightarrow> ks = []"
  by (simp add: last_opt_def)

lemma last_opt_Some: "last_opt ks = Some p \<longleftrightarrow> (\<exists>ks'. ks = ks' @ [p])"
  by (auto simp: last_opt_def) (metis append_butlast_last_id)

lemma last_opt_snoc [simp]: "last_opt (ks @ [c]) = Some c"
  by (simp add: last_opt_def)

lemma process_free_fields [simp]:
  "heap (process_free a s) = (heap s)(a := None)" "trace (process_free a s) = trace s"
  "bg_head (process_free a s) = bg_head s" "fg_pid (process_free a s) = fg_pid s"
  "interrupt (process_free a s) = interrupt s" "buffer (process_free a s) = buffer s"
  "new_command (process_free a s) = new_command s"
  by (simp_all add: process_free_def)

lemma prompt_show_loop_running:
  assumes "heap s c = Some cp" "running cp"
  shows "prompt_show_loop (Some c) prev s = prompt_show_loop (next cp) (Some c) s"
  using assms by (subst prompt_show_loop.simps) simp

lemma prompt_show_loop_head:
  assumes "heap s c = Some cp" "\<not> running cp"
  shows "prompt_show_loop (Some c) None s =
    prompt_show_loop (next cp) None (process_free c ((emit (finished (pid cp)) s)\<lparr>bg_head := next cp\<rparr>))"
  using assms by (subst prompt_show_loop.simps) simp

lemma prompt_show_loop_inner:
  assumes "heap s c = Some cp" "\<not> running cp" "heap s p = Some pp"
  shows "prompt_show_loop (Some c) (Some p) s =
    prompt_show_loop (next cp) (Some p)
      (process_free c ((emit (finished (pid cp)) s)
         \<lparr>heap := (heap (emit (finished (pid cp)) s))(p \<mapsto> pp\<lparr>next := next cp\<rparr>)\<rparr>))"
  using assms by (subst prompt_show_loop.simps) simp

lemma prompt_show_loop_end: "prompt_show_loop None prev s = Some s"
  by (subst prompt_show_loop.simps) simp


lemma reported_step:
  assumes rep: "reported s2 ks rs s'"
    and same: "\<forall>a \<in> set rs. heap s2 a = heap s a"
    and c: "heap s c = Some cp" "\<not> running cp" "c \<notin> set rs" "heap s2 c = None"
    and others: "\<forall>a. a \<noteq> c \<longrightarrow> map_option job_info (heap s2 a) = map_option job_info (heap s a)"
    and tr: "trace s2 = trace s @ [finished (pid cp)]"
    and fields: "interrupt s2 = interrupt s" "fg_pid s2 = fg_pid s" "buffer s2 = buffer s"
      "new_command s2 = new_command s"
  shows "reported s ks (c # rs) s'"
proof -
  have nc: "node s c = cp" using c(1) by (simp add: node_def)
  have nodes: "\<forall>a \<in> set rs. node s2 a = node s a"
    using same by (simp add: node_def)
  have f1: "filter (\<lambda>a. running (node s2 a)) rs = filter (\<lambda>a. running (node s a)) rs"
    and f2: "filter (\<lambda>a. \<not> running (node s2 a)) rs = filter (\<lambda>a. \<not> running (node s a)) rs"
    using nodes by (auto intro: filter_cong)
  have m: "map (\<lambda>a. finished (pid (node s2 a))) (filter (\<lambda>a. \<not> running (node s a)) rs)
      = map (\<lambda>a. finished (pid (node s a))) (filter (\<lambda>a. \<not> running (node s a)) rs)"
    using nodes by (auto intro: map_cong)
  show ?thesis
    unfolding reported_def
  proof (intro conjI)
    show "seg (heap s') (bg_head s') (ks @ filter (\<lambda>a. running (node s a)) (c # rs)) None"
      using rep c(2) nc f1 by (simp add: reported_def)
    show "trace s' = trace s @ map (\<lambda>a. finished (pid (node s a)))
        (filter (\<lambda>a. \<not> running (node s a)) (c # rs))"
      using rep c(2) nc f2 m tr by (simp add: reported_def)
    show "\<forall>a \<in> set (c # rs). \<not> running (node s a) \<longrightarrow> heap s' a = None"
    proof (intro ballI impI)
      fix a assume a: "a \<in> set (c # rs)" "\<not> running (node s a)"
      show "heap s' a = None"
      proof (cases "a = c")
        case True
        with c(3) have "\<not> (c \<in> set rs \<and> \<not> running (node s2 c))" by simp
        with rep have "map_option job_info (heap s' c) = map_option job_info (heap s2 c)"
          unfolding reported_def by blast
        with True c(4) show ?thesis by simp
      next
        case False
        with a nodes have "a \<in> set rs" "\<not> running (node s2 a)" by auto
        with rep show ?thesis unfolding reported_def by blast
      qed
    qed
    show "\<forall>a. \<not> (a \<in> set (c # rs) \<and> \<not> running (node s a)) \<longrightarrow>
      map_option job_info (heap s' a) = map_option job_info (heap s a)"
    proof (intro allI impI)
      fix a assume a: "\<not> (a \<in> set (c # rs) \<and> \<not> running (node s a))"
      with c(2) nc have ac: "a \<noteq> c" by auto
      with a nodes have "\<not> (a \<in> set rs \<and> \<not> running (node s2 a))" by auto
      with rep have "map_option job_info (heap s' a) = map_option job_info (heap s2 a)"
        unfolding reported_def by blast
      with ac others show "map_option job_info (heap s' a) = map_option job_info (heap s a)" by simp
    qed
  qed (use rep fields in \<open>simp_all add: reported_def\<close>)
qed

lemma prompt_show_loop_correct:
  "seg (heap s) (bg_head s) ks cur \<Longrightarrow> seg (heap s) cur rs None \<Longrightarrow> prev = last_opt ks \<Longrightarrow>
   \<exists>s'. prompt_show_loop cur prev s = Some s' \<and> reported s ks rs s'"
proof (induction rs arbitrary: s cur prev ks)
  case Nil
  then show ?case
    by (auto simp: prompt_show_loop_end reported_def)
next
  case (Cons c rs)
  from Cons.prems(2) obtain cp :: process_t where
    cur: "cur = Some c" and cp: "heap s c = Some cp" and rest: "seg (heap s) (next cp) rs None"
    by (auto split: option.splits)
  have whole: "seg (heap s) (bg_head s) (ks @ c # rs) None"
    using Cons.prems(1,2) by (auto simp: seg_append)
  then have dist: "distinct (ks @ c # rs)" by (rule seg_distinct)
  have nc: "node s c = cp" using cp by (simp add: node_def)
  show ?case
  proof (cases "running cp")
    case True
    have "seg (heap s) (bg_head s) (ks @ [c]) (next cp)"
      using Cons.prems(1) cur cp by (simp add: seg_snoc)
    from Cons.IH [OF this rest, of "Some c"]
    obtain s' where s': "prompt_show_loop (next cp) (Some c) s = Some s'"
      "reported s (ks @ [c]) rs s'" by auto
    from s'(2) True nc have "reported s ks (c # rs) s'"
      by (auto simp: reported_def)
    with s'(1) show ?thesis
      by (simp add: cur prompt_show_loop_running [OF cp True])
  next
    case False
    let ?s1 = "emit (finished (pid cp)) s"
    show ?thesis
    proof (cases prev)
      case None
      with Cons.prems(3) have ks: "ks = []" by (auto simp: last_opt_def split: if_splits)
      let ?s2 = "process_free c (?s1\<lparr>bg_head := next cp\<rparr>)"
      have same: "\<forall>a \<in> set rs. heap ?s2 a = heap s a" using dist by auto
      have 1: "seg (heap ?s2) (bg_head ?s2) ks (next cp)" using ks by simp
      have 2: "seg (heap ?s2) (next cp) rs None"
        by (simp only: seg_frame [OF same] rest)
      from Cons.IH [OF 1 2, of None] ks
      obtain s' where s': "prompt_show_loop (next cp) None ?s2 = Some s'" "reported ?s2 ks rs s'"
        by (auto simp: last_opt_def)
      have "reported s ks (c # rs) s'"
        using dist by (intro reported_step [OF s'(2) same cp False]) simp_all
      with s'(1) show ?thesis
        by (simp add: cur None prompt_show_loop_head [OF cp False])
    next
      case (Some p)
      with Cons.prems(3) obtain ks' where ks: "ks = ks' @ [p]"
        by (auto simp: last_opt_def split: if_splits) (metis append_butlast_last_id)
      from Cons.prems(1) ks cur obtain pp :: process_t where
        pre: "seg (heap s) (bg_head s) ks' (Some p)" and pp: "heap s p = Some pp"
        by (auto simp: seg_snoc)
      have pc: "p \<noteq> c" "p \<notin> set ks'" "c \<notin> set ks'" "p \<notin> set rs" "c \<notin> set rs"
        using dist ks by auto
      let ?s2 = "process_free c (?s1\<lparr>heap := (heap ?s1)(p \<mapsto> pp\<lparr>next := next cp\<rparr>)\<rparr>)"
      have same: "\<forall>a \<in> set rs. heap ?s2 a = heap s a" using pc by auto
      have same': "\<forall>a \<in> set ks'. heap ?s2 a = heap s a" using pc by auto
      have "seg (heap ?s2) (bg_head ?s2) ks' (Some p)"
        using pre by (simp only: seg_frame [OF same']) simp
      moreover have "heap ?s2 p = Some (pp\<lparr>next := next cp\<rparr>)" using pc by simp
      ultimately have 1: "seg (heap ?s2) (bg_head ?s2) ks (next cp)"
        unfolding ks seg_snoc by simp
      have 2: "seg (heap ?s2) (next cp) rs None"
        by (simp only: seg_frame [OF same] rest)
      from Cons.IH [OF 1 2, of "Some p"] ks
      obtain s' where s': "prompt_show_loop (next cp) (Some p) ?s2 = Some s'" "reported ?s2 ks rs s'"
        by auto
      have "reported s ks (c # rs) s'"
        using pc pp by (intro reported_step [OF s'(2) same cp False]) (simp_all add: job_info_def)
      with s'(1) show ?thesis
        by (simp add: cur Some prompt_show_loop_inner [OF cp False pp])
    qed
  qed
qed


lemma show_41: "show_int 41 = ''41''"
  by code_simp

lemma exit_loop_end: "exit_loop None s = Some s"
  by (subst exit_loop.simps) simp

lemma exit_loop_step:
  assumes "heap s c = Some cp"
  shows "exit_loop (Some c) s =
    exit_loop (next cp)
      (process_free c ((if running cp then emit (Kill (pid cp) SIGKILL) s else s)
         \<lparr>heap := (heap s)(c \<mapsto> cp\<lparr>next := None\<rparr>)\<rparr>))"
  using assms by (subst exit_loop.simps) (simp add: Let_def)

lemma exit_loop_correct:
  "seg (heap s) cur rs None \<Longrightarrow>
   \<exists>s'. exit_loop cur s = Some s'
     \<and> trace s' = trace s @ map (\<lambda>a. Kill (pid (node s a)) SIGKILL) (filter (\<lambda>a. running (node s a)) rs)
     \<and> (\<forall>a \<in> set rs. heap s' a = None)
     \<and> (\<forall>a. a \<notin> set rs \<longrightarrow> heap s' a = heap s a)
     \<and> bg_head s' = bg_head s \<and> interrupt s' = interrupt s \<and> fg_pid s' = fg_pid s
     \<and> buffer s' = buffer s \<and> new_command s' = new_command s"
proof (induction rs arbitrary: s cur)
  case Nil
  then show ?case by (simp add: exit_loop_end)
next
  case (Cons c rs)
  from Cons.prems obtain cp :: process_t where
    cur: "cur = Some c" and cp: "heap s c = Some cp" and rest: "seg (heap s) (next cp) rs None"
    by (auto split: option.splits)
  from Cons.prems have "distinct (c # rs)" by (rule seg_distinct)
  then have c: "c \<notin> set rs" by simp
  let ?s2 = "process_free c ((if running cp then emit (Kill (pid cp) SIGKILL) s else s)
         \<lparr>heap := (heap s)(c \<mapsto> cp\<lparr>next := None\<rparr>)\<rparr>)"
  have h2: "heap ?s2 = (heap s)(c := None)" by simp
  have same: "\<forall>a \<in> set rs. heap ?s2 a = heap s a" using c by (auto simp: h2)
  have "seg (heap ?s2) (next cp) rs None"
    by (simp only: seg_frame [OF same] rest)
  from Cons.IH [OF this] obtain s' where s': "exit_loop (next cp) ?s2 = Some s'"
    "trace s' = trace ?s2 @ map (\<lambda>a. Kill (pid (node ?s2 a)) SIGKILL) (filter (\<lambda>a. running (node ?s2 a)) rs)"
    "\<forall>a \<in> set rs. heap s' a = None"
    "\<forall>a. a \<notin> set rs \<longrightarrow> heap s' a = heap ?s2 a"
    "bg_head s' = bg_head ?s2" "interrupt s' = interrupt ?s2" "fg_pid s' = fg_pid ?s2"
    "buffer s' = buffer ?s2" "new_command s' = new_command ?s2"
    by blast
  have nodes: "\<forall>a \<in> set rs. node ?s2 a = node s a"
    using same by (simp add: node_def)
  have nc: "node s c = cp" using cp by (simp add: node_def)
  have f: "filter (\<lambda>a. running (node ?s2 a)) rs = filter (\<lambda>a. running (node s a)) rs"
    using nodes by (auto intro: filter_cong)
  have m: "map (\<lambda>a. Kill (pid (node ?s2 a)) SIGKILL) (filter (\<lambda>a. running (node s a)) rs)
      = map (\<lambda>a. Kill (pid (node s a)) SIGKILL) (filter (\<lambda>a. running (node s a)) rs)"
    using nodes by (auto intro: map_cong)
  have tr: "trace s' = trace s @ map (\<lambda>a. Kill (pid (node s a)) SIGKILL)
       (filter (\<lambda>a. running (node s a)) (c # rs))"
    using s'(2) f m nc by simp
  have hc: "heap s' c = None" using s'(4) c by (simp add: h2)
  have ho: "\<forall>a. a \<notin> set (c # rs) \<longrightarrow> heap s' a = heap s a"
    using s'(4) by (auto simp: h2)
  from s'(1) have "exit_loop cur s = Some s'"
    by (simp add: cur exit_loop_step [OF cp])
  with tr hc ho s'(3,5-9) show ?case by auto
qed


lemma exit_handler_correct:
  assumes reg: "jobs_at (heap s) (bg_head s) as"
  shows "\<exists>s'. command_exit_handler s = Some s'
     \<and> trace s' = trace s
          @ map (\<lambda>a. Kill (pid (node s a)) SIGKILL) (filter (\<lambda>a. running (node s a)) as)
     \<and> bg_head s' = None \<and> (\<forall>a \<in> set as. heap s' a = None)
     \<and> (\<forall>a. a \<notin> set as \<longrightarrow> heap s' a = heap s a)
     \<and> interrupt s' = 1 \<and> fg_pid s' = fg_pid s \<and> buffer s' = buffer s"
proof -
  from reg have "seg (heap s) (bg_head s) as None" by (simp add: jobs_at_def)
  from exit_loop_correct [OF this] obtain s1 where s1: "exit_loop (bg_head s) s = Some s1"
    "trace s1 = trace s @ map (\<lambda>a. Kill (pid (node s a)) SIGKILL) (filter (\<lambda>a. running (node s a)) as)"
    "\<forall>a \<in> set as. heap s1 a = None" "\<forall>a. a \<notin> set as \<longrightarrow> heap s1 a = heap s a"
    "fg_pid s1 = fg_pid s" "buffer s1 = buffer s"
    by blast
  have "command_exit_handler s = Some (s1\<lparr>bg_head := None, interrupt := 1\<rparr>)"
    by (simp add: command_exit_handler_def s1(1))
  with s1(2-) show ?thesis by simp
qed

lemma two_jobs_registry: "jobs_at (heap two_jobs) (bg_head two_jobs) [10, 20]"
  by (simp add: two_jobs_def jobs_at_def)

lemma two_jobs_nodes:
  "node two_jobs 10 = \<lparr>next = Some 20, running = False, pid = 41\<rparr>"
  "node two_jobs 20 = \<lparr>next = None, running = True, pid = 42\<rparr>"
  by (simp_all add: node_def two_jobs_def)

lemma mark_terminated_end: "mark_terminated None c_pid s = Some s"
  by (subst mark_terminated.simps) simp

lemma mark_terminated_hit:
  "heap s a = Some p \<Longrightarrow> pid p = c_pid \<Longrightarrow>
   mark_terminated (Some a) c_pid s = Some (s\<lparr>heap := (heap s)(a \<mapsto> p\<lparr>running := False\<rparr>)\<rparr>)"
  by (subst mark_terminated.simps) simp

lemma mark_terminated_miss:
  "heap s a = Some p \<Longrightarrow> pid p \<noteq> c_pid \<Longrightarrow>
   mark_terminated (Some a) c_pid s = mark_terminated (next p) c_pid s"
  by (subst mark_terminated.simps) simp

lemma mark_terminated_correct:
  "seg (heap s) cur rs None \<Longrightarrow>
   mark_terminated cur c_pid s =
     Some (case find (\<lambda>a. pid (node s a) = c_pid) rs of
             None \<Rightarrow> s
           | Some a \<Rightarrow> s\<lparr>heap := (heap s)(a \<mapsto> (node s a)\<lparr>running := False\<rparr>)\<rparr>)"
proof (induction rs arbitrary: cur)
  case Nil
  then show ?case by (simp add: mark_terminated_end)
next
  case (Cons c rs)
  from Cons.prems obtain cp :: process_t where
    cur: "cur = Some c" and cp: "heap s c = Some cp" and rest: "seg (heap s) (next cp) rs None"
    by (auto split: option.splits)
  have nc: "node s c = cp" using cp by (simp add: node_def)
  show ?case
  proof (cases "pid cp = c_pid")
    case True
    with cp nc show ?thesis by (simp add: cur mark_terminated_hit)
  next
    case False
    with cp nc Cons.IH [OF rest] show ?thesis by (simp add: cur mark_terminated_miss)
  qed
qed

lemma seg_flag_update:
  "seg h p as q \<Longrightarrow> h a = Some n \<Longrightarrow> seg (h(a \<mapsto> n\<lparr>running := r\<rparr>)) p as q"
  by (induction as arbitrary: p) (auto split: option.splits)

lemma find_in: "find P xs = Some a \<Longrightarrow> a \<in> set xs \<and> P a"
  by (induction xs) (auto split: if_splits)

lemma reap_one_registry:
  assumes "seg (heap s) (bg_head s) as None"
  shows "seg (heap (reap_one as s z)) (bg_head (reap_one as s z)) as None"
proof (cases "find (\<lambda>a. pid (node s a) = z) as")
  case None
  with assms show ?thesis by (simp add: reap_one_def)
next
  case (Some a)
  then have "a \<in> set as" by (auto dest: find_in)
  with assms obtain n where n: "heap s a = Some n" by (auto dest: seg_allocated)
  then have "node s a = n" by (simp add: node_def)
  with assms Some n seg_flag_update [OF assms n, of False] show ?thesis
    by (simp add: reap_one_def)
qed

lemma reap_one_fields:
  "trace (reap_one as s z) = trace s" "bg_head (reap_one as s z) = bg_head s"
  "interrupt (reap_one as s z) = interrupt s" "buffer (reap_one as s z) = buffer s"
  "fg_pid (reap_one as s z) = fg_pid s \<or> fg_pid (reap_one as s z) = -1"
  by (auto simp: reap_one_def split: option.splits)

lemma reap_one_jobs:
  assumes "seg (heap s) (bg_head s) as None" "a \<in> set as"
  shows "pid (node (reap_one as s z) a) = pid (node s a)
       \<and> (running (node (reap_one as s z) a) \<longrightarrow> running (node s a))"
  by (auto simp: reap_one_def node_def split: option.splits)

lemma sigchld_loop_correct:
  "seg (heap s) (bg_head s) as None \<Longrightarrow> \<forall>z \<in> set (zombies k). 0 < z \<Longrightarrow>
   sigchld_loop k s = Some (k\<lparr>zombies := []\<rparr>, foldl (reap_one as) s (zombies k))"
proof (induction "zombies k" arbitrary: k s)
  case Nil
  then show ?case
    by (subst sigchld_loop.simps) (simp add: waitpid_any_nohang_def)
next
  case (Cons z zs)
  from Cons.hyps(2) [symmetric] have w: "waitpid_any_nohang k = (z, k\<lparr>zombies := zs\<rparr>)"
    by (simp add: waitpid_any_nohang_def)
  from Cons.hyps(2) Cons.prems(2) have z: "0 < z" by (metis list.set_intros(1))
  have zs: "zs = zombies (k\<lparr>zombies := zs\<rparr>)" by simp
  have pos: "\<forall>z \<in> set (zombies (k\<lparr>zombies := zs\<rparr>)). 0 < z"
    using Cons.hyps(2) Cons.prems(2) by (metis kernel.select_convs(1) kernel.surjective kernel.update_convs(1) list.set_intros(2))
  have reg: "seg (heap (reap_one as s z)) (bg_head (reap_one as s z)) as None"
    using Cons.prems(1) by (rule reap_one_registry)
  have step: "sigchld_loop k s = sigchld_loop (k\<lparr>zombies := zs\<rparr>) (reap_one as s z)"
  proof (cases "z = fg_pid s")
    case True
    with z w show ?thesis
      by (subst sigchld_loop.simps) (simp add: reap_one_def)
  next
    case False
    with z w mark_terminated_correct [OF Cons.prems(1), of z] show ?thesis
      by (subst sigchld_loop.simps) (simp add: reap_one_def)
  qed
  from Cons.hyps(1) [OF zs reg pos] step Cons.hyps(2) [symmetric] show ?case
    by simp
qed


lemma reap_all_correct:
  "seg (heap s) (bg_head s) as None \<Longrightarrow>
   seg (heap (foldl (reap_one as) s zs)) (bg_head (foldl (reap_one as) s zs)) as None
   \<and> bg_head (foldl (reap_one as) s zs) = bg_head s
   \<and> trace (foldl (reap_one as) s zs) = trace s
   \<and> (\<forall>a \<in> set as. pid (node (foldl (reap_one as) s zs) a) = pid (node s a)
         \<and> (running (node (foldl (reap_one as) s zs) a) \<longrightarrow> running (node s a)))
   \<and> (fg_pid (foldl (reap_one as) s zs) = fg_pid s \<or> fg_pid (foldl (reap_one as) s zs) = -1)"
proof (induction zs arbitrary: s)
  case Nil
  then show ?case by simp
next
  case (Cons z zs)
  note reg = reap_one_registry [OF Cons.prems, of z]
  from Cons.IH [OF reg] reap_one_fields [of as s z] reap_one_jobs [OF Cons.prems, of _ z]
  show ?case by (auto simp del: One_nat_def)
qed

lemma wait_loop_stopped:
  "set sts \<subseteq> {Stopped} \<Longrightarrow> wait_loop (map WaitStatus sts @ ws) = wait_loop ws"
  by (induction sts) auto

lemma command_fork_foreground:
  assumes "0 < fork_ret e" "\<not> run_in_bg c"
  shows "command_fork e c s =
    (case wait_loop (waits e) of
       None \<Rightarrow> None
     | Some False \<Rightarrow> Some (Return (-1), (emit (Perror ''waitpid'') (emit (Fork (fork_ret e)) s))\<lparr>fg_pid := -1\<rparr>)
     | Some True \<Rightarrow> Some (Return 0, (emit (Fork (fork_ret e)) s)\<lparr>fg_pid := -1\<rparr>))"
  using assms by (auto simp: command_fork_def Let_def emit_def split: option.splits bool.splits)

lemma replicate_cons: "n = Suc m \<Longrightarrow> c # replicate m c = replicate n c"
  by simp

lemma nul_509: "NUL # replicate 508 NUL = replicate 509 NUL"
  by (rule replicate_cons) simp

lemma strcmp_eq_end: "0 < n \<Longrightarrow> strcmp_eq (replicate n c) [] = Some (c = NUL)"
  by (cases n) simp_all

lemma parse_exit:
  assumes ca: "ca ARGS_SIZE"
  shows "command_parse ca (s\<lparr>buffer := fill CMD_EXIT\<rparr>) =
    (0, \<lparr>run_in_bg = False, args = Some [Ptr 0, Null, Null, Null], out = None, in' = None\<rparr>,
     s\<lparr>buffer := fill CMD_EXIT\<rparr>)"
proof -
  let ?st = "\<lparr>cmd = \<lparr>run_in_bg = False, args = None, out = None, in' = None\<rparr>,
                  arr = [Ptr 0, Garbage, Garbage, Garbage], args_size = ARGS_SIZE,
                  token = NUL, ignore = True, pos = 1,
                  buf = CMD_EXIT @ replicate 509 NUL\<rparr>"
  have "parse_steps ca [0..<length CMD_EXIT] (parse_init (fill CMD_EXIT)) = Inr ?st"
    by (simp add: upt4 garbage4 parse_init_def fill_short parse_step_def isspace_def Let_def)
  from parse_line [OF ca _ this] show ?thesis
    by (simp add: null_terminate_def numeral_3_eq_3 fill_short)
qed

lemma execute_exit:
  assumes ca: "can_alloc e ARGS_SIZE" and b: "buffer t = fill CMD_EXIT"
  shows "command_execute e t =
    (case command_exit_handler t of None \<Rightarrow> None | Some s2 \<Rightarrow> Some (Return 0, s2))"
proof -
  have t: "t = t\<lparr>buffer := fill CMD_EXIT\<rparr>" using b [symmetric] by simp
  have p: "command_parse (can_alloc e) t =
    (0, \<lparr>run_in_bg = False, args = Some [Ptr 0, Null, Null, Null], out = None, in' = None\<rparr>, t)"
    using parse_exit [of "can_alloc e" t, OF ca] t by simp
  have "strcmp_eq (drop 0 (buffer t)) CMD_EXIT = Some True"
    by (simp add: b fill_short strcmp_eq_end)
  with p show ?thesis by (simp add: command_execute_def)
qed

lemma input_read_eof:
  "input_read refill 0 (held, inp) s
     = Some (0, (held, inp), emit (Stdout (CMD_EXIT @ [NEWLINE])) (s\<lparr>buffer := fill CMD_EXIT\<rparr>))"
proof -
  have "strcpy (fill []) CMD_EXIT = fill CMD_EXIT"
    by (simp add: strcpy_def fill_def nul_509)
  moreover have "c_string (fill CMD_EXIT) 0 = CMD_EXIT"
    by (simp add: c_string_def fill_short)
  ultimately show ?thesis
    by (simp add: input_read_def Let_def)
qed

lemma input_read_exit_typed:
  "input_read refill 5 (held, CMD_EXIT @ NEWLINE # inp) s
     = Some (0, (held, inp), s\<lparr>buffer := fill CMD_EXIT\<rparr>)"
proof -
  have "(fill (CMD_EXIT @ [NEWLINE]))[4 := NUL] = fill CMD_EXIT"
    by (simp add: fill_short nul_509)
  then show ?thesis
    using input_read_accepts [of 5 "CMD_EXIT @ NEWLINE # inp" refill held s] by simp
qed













section \<open>The claims about the parser\<close>

text \<open>
  C9. Parsing \<^verbatim>\<open>echo hi > out.txt\<close> gives the arguments \<^verbatim>\<open>echo\<close>, \<^verbatim>\<open>hi\<close>, the output target
  \<^verbatim>\<open>out.txt\<close>, no input target and a clear background flag; parsing \<^verbatim>\<open>sleep 5 &\<close> gives the
  arguments \<^verbatim>\<open>sleep\<close>, \<^verbatim>\<open>5\<close> and a set background flag. In both cases the argument array
  holds the two pointers and then null pointers, so that it reads as the sequence of just
  these two strings. In every buffer that ends in the terminator, the argument array reads
  as a null-terminated sequence and no token of the parsed command contains the
  background marker. The allocations of the argument array are taken to succeed.
\<close>

theorem parse_examples:
  assumes ca: "ca ARGS_SIZE"
  shows "parse_view ca (s\<lparr>buffer := fill ''echo hi > out.txt''\<rparr>)
           = (0, Some [''echo'', ''hi''], Some ''out.txt'', None, False)
       \<and> args (fst (snd (command_parse ca (s\<lparr>buffer := fill ''echo hi > out.txt''\<rparr>))))
           = Some [Ptr 0, Ptr 5, Null, Null]
       \<and> parse_view ca (s\<lparr>buffer := fill ''sleep 5 &''\<rparr>)
           = (0, Some [''sleep'', ''5''], None, None, True)
       \<and> args (fst (snd (command_parse ca (s\<lparr>buffer := fill ''sleep 5 &''\<rparr>))))
           = Some [Ptr 0, Ptr 6, Null, Null]
       \<and> (\<forall>t::shell. (\<forall>n. ca n) \<and> length (buffer t) = BUFFER_SIZE
              \<and> buffer t ! EFFECTIVE_BUFFER_SIZE = NUL \<longrightarrow>
            fst (snd (parse_view ca t)) \<noteq> None
            \<and> (\<forall>w \<in> view_tokens (snd (parse_view ca t)). RUN_IN_BG \<notin> set w))"
proof (intro conjI allI impI)
  show "parse_view ca (s\<lparr>buffer := fill ''echo hi > out.txt''\<rparr>)
           = (0, Some [''echo'', ''hi''], Some ''out.txt'', None, False)"
    using ca by (simp add: parse_view_def parse_echo command_view_def c_string_def)
  show "args (fst (snd (command_parse ca (s\<lparr>buffer := fill ''echo hi > out.txt''\<rparr>))))
           = Some [Ptr 0, Ptr 5, Null, Null]"
    using ca by (simp add: parse_echo)
  show "parse_view ca (s\<lparr>buffer := fill ''sleep 5 &''\<rparr>)
           = (0, Some [''sleep'', ''5''], None, None, True)"
    using ca by (simp add: parse_view_def parse_sleep command_view_def c_string_def)
  show "args (fst (snd (command_parse ca (s\<lparr>buffer := fill ''sleep 5 &''\<rparr>))))
           = Some [Ptr 0, Ptr 6, Null, Null]"
    using ca by (simp add: parse_sleep)
next
  fix t :: shell
  assume h: "(\<forall>n. ca n) \<and> length (buffer t) = BUFFER_SIZE \<and> buffer t ! EFFECTIVE_BUFFER_SIZE = NUL"
  obtain r c t' where p: "command_parse ca t = (r, c, t')" by (cases "command_parse ca t")
  from h have o: "fst (command_view c t') \<noteq> None
      \<and> (\<forall>w \<in> view_tokens (command_view c t'). \<forall>x \<in> set w. ordinary x)"
    by (intro parsed_tokens_ordinary [OF _ _ _ p]) simp_all
  then have "\<forall>w \<in> view_tokens (command_view c t'). RUN_IN_BG \<notin> set w"
    by (auto simp: ordinary_def is_marker_def)
  with p show "\<forall>w \<in> view_tokens (snd (parse_view ca t)). RUN_IN_BG \<notin> set w"
    by (simp add: parse_view_def)
  from o p show "fst (snd (parse_view ca t)) \<noteq> None"
    by (simp add: parse_view_def)
qed

theorem parse_examples_witness:
  "alloc_ok ARGS_SIZE
   \<and> parse_view alloc_ok (shell0\<lparr>buffer := fill ''echo hi > out.txt''\<rparr>)
           = (0, Some [''echo'', ''hi''], Some ''out.txt'', None, False)
   \<and> args (fst (snd (command_parse alloc_ok (shell0\<lparr>buffer := fill ''echo hi > out.txt''\<rparr>))))
           = Some [Ptr 0, Ptr 5, Null, Null]
   \<and> parse_view alloc_ok (shell0\<lparr>buffer := fill ''sleep 5 &''\<rparr>)
           = (0, Some [''sleep'', ''5''], None, None, True)
   \<and> args (fst (snd (command_parse alloc_ok (shell0\<lparr>buffer := fill ''sleep 5 &''\<rparr>))))
           = Some [Ptr 0, Ptr 6, Null, Null]
   \<and> length (buffer (shell0\<lparr>buffer := fill ''sleep 5 &''\<rparr>)) = BUFFER_SIZE
   \<and> buffer (shell0\<lparr>buffer := fill ''sleep 5 &''\<rparr>) ! EFFECTIVE_BUFFER_SIZE = NUL
   \<and> fst (snd (parse_view alloc_ok (shell0\<lparr>buffer := fill ''sleep 5 &''\<rparr>))) \<noteq> None
   \<and> RUN_IN_BG \<notin> \<Union> (set ` view_tokens (snd (parse_view alloc_ok (shell0\<lparr>buffer := fill ''sleep 5 &''\<rparr>))))"
proof -
  have len: "length (buffer (shell0\<lparr>buffer := fill ''sleep 5 &''\<rparr>)) = BUFFER_SIZE"
    by (simp add: fill_def)
  have last: "buffer (shell0\<lparr>buffer := fill ''sleep 5 &''\<rparr>) ! EFFECTIVE_BUFFER_SIZE = NUL"
    by (simp add: fill_short nul_tail)
  have ok: "alloc_ok ARGS_SIZE" "\<forall>n. alloc_ok n" by (simp_all add: alloc_ok_def)
  note th = parse_examples [of alloc_ok shell0, OF ok(1)]
  from th ok(2) len last
  have g: "fst (snd (parse_view alloc_ok (shell0\<lparr>buffer := fill ''sleep 5 &''\<rparr>))) \<noteq> None
     \<and> (\<forall>w \<in> view_tokens (snd (parse_view alloc_ok (shell0\<lparr>buffer := fill ''sleep 5 &''\<rparr>))).
         RUN_IN_BG \<notin> set w)"
    by blast
  then have "RUN_IN_BG \<notin> \<Union> (set ` view_tokens (snd (parse_view alloc_ok (shell0\<lparr>buffer := fill ''sleep 5 &''\<rparr>))))"
    by blast
  with th g ok(1) len last show ?thesis by blast
qed

text \<open>
  The roles of tokens. For every line (the allocations succeeding), the argument array holds
  token starts \<open>A\<close> followed by null pointers; the redirection targets are token starts
  too, and none of them is in \<open>A\<close>, nor is the input target the output target: no token
  has two roles. A token that begins immediately after a redirection character is never
  an argument. When no redirection character is followed by a second token before the
  next control character, the input target is the last token that begins immediately
  after an input-redirection character, the output target the last one immediately after
  an output-redirection character, and the arguments are exactly the other tokens, in
  order. The lines on which a further token follows a target are the subject of
  \<open>parse_marker_never_cleared\<close> below.
\<close>

lemma parse_roles:
  assumes ca: "\<forall>n. ca n" and len: "length (buffer s) = BUFFER_SIZE"
    and p: "command_parse ca s = (r, c, s')"
  shows "\<exists>A k. r = 0 \<and> 0 < k \<and> args c = Some (map Ptr A @ replicate k Null)
    \<and> (\<forall>j \<in> set A. j < EFFECTIVE_BUFFER_SIZE \<and> tok_start (buffer s) j
                     \<and> in' c \<noteq> Some j \<and> out c \<noteq> Some j)
    \<and> (\<forall>j. in' c = Some j \<or> out c = Some j \<longrightarrow>
             j < EFFECTIVE_BUFFER_SIZE \<and> tok_start (buffer s) j)
    \<and> (\<forall>j. in' c = Some j \<longrightarrow> out c \<noteq> Some j)
    \<and> (\<forall>j \<in> {..<EFFECTIVE_BUFFER_SIZE}.
          follows REDIR_IN (buffer s) j \<or> follows REDIR_OUT (buffer s) j \<longrightarrow> j \<notin> set A)
    \<and> (single_target (buffer s) EFFECTIVE_BUFFER_SIZE \<longrightarrow>
          A = filter (\<lambda>j. tok_start (buffer s) j \<and> \<not> follows REDIR_IN (buffer s) j
                           \<and> \<not> follows REDIR_OUT (buffer s) j) [0..<EFFECTIVE_BUFFER_SIZE]
        \<and> in' c = last_opt (filter (follows REDIR_IN (buffer s)) [0..<EFFECTIVE_BUFFER_SIZE])
        \<and> out c = last_opt (filter (follows REDIR_OUT (buffer s)) [0..<EFFECTIVE_BUFFER_SIZE]))"
proof -
  let ?b = "buffer s" and ?n = "EFFECTIVE_BUFFER_SIZE"
  from command_parse_char [OF ca len] p obtain k where k: "0 < k" and r: "r = 0"
    and a: "args c = Some (map Ptr (arg_starts ?b ?n) @ replicate k Null)"
    and o: "out c = last_opt (redir_starts REDIR_OUT ?b ?n)"
    and i: "in' c = last_opt (redir_starts REDIR_IN ?b ?n)"
    by auto
  have n: "?n \<le> length ?b" using len by simp
  have A: "j < ?n \<and> tok_start ?b j \<and> mode ?b j \<noteq> REDIR_IN \<and> mode ?b j \<noteq> REDIR_OUT"
    if "j \<in> set (arg_starts ?b ?n)" for j
    using that by (auto simp: arg_starts_filter)
  have I: "j < ?n \<and> tok_start ?b j \<and> mode ?b j = REDIR_IN" if "in' c = Some j" for j
    using last_opt_in [of "redir_starts REDIR_IN ?b ?n" j] that i by (auto simp: redir_starts_filter)
  have O: "j < ?n \<and> tok_start ?b j \<and> mode ?b j = REDIR_OUT" if "out c = Some j" for j
    using last_opt_in [of "redir_starts REDIR_OUT ?b ?n" j] that o by (auto simp: redir_starts_filter)
  have F: "j \<notin> set (arg_starts ?b ?n)"
    if "j < ?n" "follows REDIR_IN ?b j \<or> follows REDIR_OUT ?b j" for j
  proof -
    from that n have "mode ?b j = REDIR_IN \<or> mode ?b j = REDIR_OUT"
      using follows_mode [of REDIR_IN ?b j] follows_mode [of REDIR_OUT ?b j]
      by (auto simp: is_marker_def)
    with A [of j] show ?thesis by auto
  qed
  show ?thesis
  proof (intro exI [of _ "arg_starts ?b ?n"] exI [of _ k] conjI)
    show "r = 0" by (rule r)
    show "0 < k" by (rule k)
    show "args c = Some (map Ptr (arg_starts ?b ?n) @ replicate k Null)" by (rule a)
    show "\<forall>j \<in> set (arg_starts ?b ?n). j < ?n \<and> tok_start ?b j \<and> in' c \<noteq> Some j \<and> out c \<noteq> Some j"
      using A I O by fastforce
    show "\<forall>j. in' c = Some j \<or> out c = Some j \<longrightarrow> j < ?n \<and> tok_start ?b j"
      using I O by blast
    show "\<forall>j. in' c = Some j \<longrightarrow> out c \<noteq> Some j"
      using I O by fastforce
    show "\<forall>j \<in> {..<?n}. follows REDIR_IN ?b j \<or> follows REDIR_OUT ?b j \<longrightarrow> j \<notin> set (arg_starts ?b ?n)"
      using F by auto
    show "single_target ?b ?n \<longrightarrow>
          arg_starts ?b ?n = filter (\<lambda>j. tok_start ?b j \<and> \<not> follows REDIR_IN ?b j
                           \<and> \<not> follows REDIR_OUT ?b j) [0..<?n]
        \<and> in' c = last_opt (filter (follows REDIR_IN ?b) [0..<?n])
        \<and> out c = last_opt (filter (follows REDIR_OUT ?b) [0..<?n])"
      using arg_starts_follows [OF _ n] redir_starts_follows [OF _ n] i o by simp
  qed
qed


lemma upt13: "[0..<13] = [0,1,2,3,4,5,6,7,8,9,10,11,12]"
  by code_simp

lemma parse_flag:
  assumes ca: "ca ARGS_SIZE"
  shows "command_parse ca (s\<lparr>buffer := fill ''ls > out -l''\<rparr>) =
    (0, \<lparr>run_in_bg = False, args = Some [Ptr 0, Null, Null, Null], out = Some 9, in' = None\<rparr>,
     s\<lparr>buffer := ''ls'' @ [NUL, NUL, NUL] @ ''out'' @ [NUL] @ ''-l'' @ replicate 502 NUL\<rparr>)"
proof -
  let ?st = "\<lparr>cmd = \<lparr>run_in_bg = False, args = None, out = Some 9, in' = None\<rparr>,
                  arr = [Ptr 0, Garbage, Garbage, Garbage], args_size = ARGS_SIZE,
                  token = REDIR_OUT, ignore = True, pos = 1,
                  buf = ''ls'' @ [NUL, NUL, NUL] @ ''out'' @ [NUL] @ ''-l'' @ replicate 502 NUL\<rparr>"
  have "parse_steps ca [0..<length ''ls > out -l''] (parse_init (fill ''ls > out -l'')) = Inr ?st"
    by (simp add: upt11 garbage4 parse_init_def fill_short parse_step_def isspace_def Let_def)
  from parse_line [OF ca _ this] show ?thesis
    by (simp add: null_terminate_def numeral_3_eq_3)
qed

lemma parse_leading:
  assumes ca: "ca ARGS_SIZE"
  shows "command_parse ca (s\<lparr>buffer := fill ''> out echo hi''\<rparr>) =
    (0, \<lparr>run_in_bg = False, args = Some [Null, Null, Null, Null], out = Some 11, in' = None\<rparr>,
     s\<lparr>buffer := [NUL, NUL] @ ''out'' @ [NUL] @ ''echo'' @ [NUL] @ ''hi'' @ replicate 500 NUL\<rparr>)"
proof -
  let ?st = "\<lparr>cmd = \<lparr>run_in_bg = False, args = None, out = Some 11, in' = None\<rparr>,
                  arr = [Garbage, Garbage, Garbage, Garbage], args_size = ARGS_SIZE,
                  token = REDIR_OUT, ignore = True, pos = 0,
                  buf = [NUL, NUL] @ ''out'' @ [NUL] @ ''echo'' @ [NUL] @ ''hi'' @ replicate 500 NUL\<rparr>"
  have "parse_steps ca [0..<length ''> out echo hi''] (parse_init (fill ''> out echo hi'')) = Inr ?st"
    by (simp add: upt13 garbage4 parse_init_def fill_short parse_step_def isspace_def Let_def)
  from parse_line [OF ca _ this] show ?thesis
    by (simp add: null_terminate_def null4)
qed

text \<open>
  C3, at inputs on which the code fails. The parser never clears the control character it
  has met once the redirection target is stored, so every later token of the line is
  taken for the target again and none is appended to the arguments. In
  \<^verbatim>\<open>cat > out extra\<close> the output target is \<^verbatim>\<open>extra\<close> and the only argument \<^verbatim>\<open>cat\<close>; in
  \<^verbatim>\<open>ls > out -l\<close> the target is \<^verbatim>\<open>-l\<close> and the only argument \<^verbatim>\<open>ls\<close>; in \<^verbatim>\<open>> out echo hi\<close>
  the target is \<^verbatim>\<open>hi\<close>, there is no argument at all, and \<^verbatim>\<open>command_execute\<close> returns 0
  without running anything.
\<close>

theorem parse_marker_never_cleared:
  "parse_view alloc_ok (shell0\<lparr>buffer := fill ''cat > out extra''\<rparr>)
     = (0, Some [''cat''], Some ''extra'', None, False)
   \<and> parse_view alloc_ok (shell0\<lparr>buffer := fill ''ls > out -l''\<rparr>)
     = (0, Some [''ls''], Some ''-l'', None, False)
   \<and> parse_view alloc_ok (shell0\<lparr>buffer := fill ''> out echo hi''\<rparr>)
     = (0, Some [], Some ''hi'', None, False)
   \<and> command_execute env0 (shell0\<lparr>buffer := fill ''> out echo hi''\<rparr>)
     = Some (Return 0,
             shell0\<lparr>buffer := [NUL, NUL] @ ''out'' @ [NUL] @ ''echo'' @ [NUL] @ ''hi'' @ replicate 500 NUL\<rparr>)"
proof -
  have ok: "alloc_ok ARGS_SIZE" "can_alloc env0 ARGS_SIZE" by (simp_all add: alloc_ok_def env0_def)
  have 1: "parse_view alloc_ok (shell0\<lparr>buffer := fill ''cat > out extra''\<rparr>)
     = (0, Some [''cat''], Some ''extra'', None, False)"
    using ok by (simp add: parse_view_def parse_extra command_view_def c_string_def)
  have 2: "parse_view alloc_ok (shell0\<lparr>buffer := fill ''ls > out -l''\<rparr>)
     = (0, Some [''ls''], Some ''-l'', None, False)"
    using ok by (simp add: parse_view_def parse_flag command_view_def c_string_def)
  have 3: "parse_view alloc_ok (shell0\<lparr>buffer := fill ''> out echo hi''\<rparr>)
     = (0, Some [], Some ''hi'', None, False)"
    using ok by (simp add: parse_view_def parse_leading command_view_def c_string_def)
  have 4: "command_execute env0 (shell0\<lparr>buffer := fill ''> out echo hi''\<rparr>)
     = Some (Return 0,
             shell0\<lparr>buffer := [NUL, NUL] @ ''out'' @ [NUL] @ ''echo'' @ [NUL] @ ''hi'' @ replicate 500 NUL\<rparr>)"
    using ok by (simp add: command_execute_def parse_leading)
  from 1 2 3 4 show ?thesis by (intro conjI)
qed

text \<open>
  C8. When every byte of the buffer that the parser scans is blank space or the
  terminator (and the argument array can be allocated), parsing gives no argument and no
  redirection target, and \<^verbatim>\<open>command_execute\<close> returns 0 with the globals as they were, but
  for the blank space in the buffer now being terminators: nothing is written, no signal
  is sent, \<^verbatim>\<open>fork\<close> is not called, the interrupt flag and the registry are untouched.
\<close>

theorem blank_line_noop:
  assumes ca: "can_alloc e ARGS_SIZE" and len: "length (buffer s) = BUFFER_SIZE"
    and blank: "\<forall>i \<in> {..<EFFECTIVE_BUFFER_SIZE}. isspace (buffer s ! i) \<or> buffer s ! i = NUL"
  shows "parse_view (can_alloc e) s = (0, Some [], None, None, False)
    \<and> command_execute e s =
        Some (Return 0, s\<lparr>buffer := replicate EFFECTIVE_BUFFER_SIZE NUL @ drop EFFECTIVE_BUFFER_SIZE (buffer s)\<rparr>)
    \<and> (\<forall>s'. command_execute e s = Some (Return 0, s') \<longrightarrow>
          trace s' = trace s \<and> interrupt s' = interrupt s \<and> fg_pid s' = fg_pid s
          \<and> bg_head s' = bg_head s \<and> heap s' = heap s)"
proof -
  note p = parse_blank [of "can_alloc e" s, OF ca len blank]
  have v: "parse_view (can_alloc e) s = (0, Some [], None, None, False)"
    by (simp add: parse_view_def p command_view_def)
  have x: "command_execute e s =
        Some (Return 0, s\<lparr>buffer := replicate EFFECTIVE_BUFFER_SIZE NUL @ drop EFFECTIVE_BUFFER_SIZE (buffer s)\<rparr>)"
    by (simp add: command_execute_def p)
  from v x show ?thesis by simp
qed

theorem blank_line_noop_witness:
  "can_alloc env0 ARGS_SIZE
   \<and> length (buffer (shell0\<lparr>buffer := fill ''   ''\<rparr>)) = BUFFER_SIZE
   \<and> list_all (\<lambda>i. isspace (buffer (shell0\<lparr>buffer := fill ''   ''\<rparr>) ! i)
          \<or> buffer (shell0\<lparr>buffer := fill ''   ''\<rparr>) ! i = NUL) [0..<EFFECTIVE_BUFFER_SIZE]
   \<and> parse_view (can_alloc env0) (shell0\<lparr>buffer := fill ''   ''\<rparr>) = (0, Some [], None, None, False)
   \<and> command_execute env0 (shell0\<lparr>buffer := fill ''   ''\<rparr>) = Some (Return 0, shell0)"
proof -
  let ?S = "shell0\<lparr>buffer := fill ''   ''\<rparr>"
  have ca: "can_alloc env0 ARGS_SIZE" by (simp add: env0_def alloc_ok_def)
  have len: "length (buffer ?S) = BUFFER_SIZE" by (simp add: fill_def)
  have blank: "\<forall>i \<in> {..<EFFECTIVE_BUFFER_SIZE}. isspace (buffer ?S ! i) \<or> buffer ?S ! i = NUL"
  proof
    fix i assume "i \<in> {..<EFFECTIVE_BUFFER_SIZE}"
    show "isspace (buffer ?S ! i) \<or> buffer ?S ! i = NUL"
    proof (cases "i < 3")
      case True
      then have "i = 0 \<or> i = 1 \<or> i = 2" by auto
      then show ?thesis by (auto simp: fill_short isspace_def)
    next
      case False
      then show ?thesis
        using nul_tail [of "''   ''" i 510 NUL] \<open>i \<in> {..<EFFECTIVE_BUFFER_SIZE}\<close>
        by (simp add: fill_short)
    qed
  qed
  have d: "drop EFFECTIVE_BUFFER_SIZE (fill ''   '') = [NUL]" by (simp add: fill_short)
  have r: "replicate EFFECTIVE_BUFFER_SIZE NUL @ [NUL] = replicate BUFFER_SIZE NUL"
    by (rule replicate_snoc) simp
  have eq: "?S\<lparr>buffer := replicate EFFECTIVE_BUFFER_SIZE NUL @ drop EFFECTIVE_BUFFER_SIZE (buffer ?S)\<rparr> = shell0"
    by (simp add: d r shell0_def)
  note th = blank_line_noop [OF ca len blank]
  have v: "parse_view (can_alloc env0) ?S = (0, Some [], None, None, False)"
    using th by (rule conjunct1)
  have x: "command_execute env0 ?S = Some (Return 0, shell0)"
    using th [THEN conjunct2, THEN conjunct1] by (simp only: eq)
  have "list_all (\<lambda>i. isspace (buffer ?S ! i) \<or> buffer ?S ! i = NUL) [0..<EFFECTIVE_BUFFER_SIZE]"
    unfolding list_all_iff
  proof
    fix i assume "i \<in> set [0..<EFFECTIVE_BUFFER_SIZE]"
    then have "i \<in> {..<EFFECTIVE_BUFFER_SIZE}" by simp
    with blank show "isspace (buffer ?S ! i) \<or> buffer ?S ! i = NUL" by blast
  qed
  with ca len v x show ?thesis by (intro conjI)
qed




section \<open>The claims about the line source\<close>

text \<open>
  C6, at the input on which the code fails: the read delivers 513 bytes that do not end
  in a newline and standard input is then at its end, no byte being held by the stream.
  \<^verbatim>\<open>input_read\<close> never returns, whatever the stream takes at a time.
\<close>

theorem input_read_overlong_eof:
  "input_read refill 513 ([], replicate 513 (CHR ''a'')) s = None"
proof -
  have "drain_line refill ([], []) = None" by (rule drain_line_no_newline) simp
  then show ?thesis
    by (simp add: input_read_too_long_drain)
qed






section \<open>The claims about the registry\<close>

text \<open>
  C5. When the registry is a well-formed list, displaying the prompt prints one
  \<^verbatim>\<open>[pid] Finished\<close> line for each job whose flag says terminated, in registry order, then
  the prompt; afterwards the registry consists of exactly the jobs whose flag says
  running, in their old order and each with its identifier and flag unchanged, and the
  nodes of the reported jobs are freed.
\<close>

theorem prompt_show_reports:
  assumes reg: "jobs_at (heap s) (bg_head s) as"
  shows "\<exists>s'. prompt_show s = Some s'
     \<and> trace s' = trace s
          @ map (\<lambda>a. finished (pid (node s a))) (filter (\<lambda>a. \<not> running (node s a)) as)
          @ [Stdout PROMPT, Fflush]
     \<and> jobs_at (heap s') (bg_head s') (filter (\<lambda>a. running (node s a)) as)
     \<and> (\<forall>a \<in> set as.
           if running (node s a) then map_option job_info (heap s' a) = Some (job_info (node s a))
           else heap s' a = None)"
proof -
  from reg have "seg (heap s) (bg_head s) [] (bg_head s)" "seg (heap s) (bg_head s) as None"
    by (simp_all add: jobs_at_def)
  from prompt_show_loop_correct [OF this, of None]
  obtain s1 where s1: "prompt_show_loop (bg_head s) None s = Some s1" "reported s [] as s1"
    by (auto simp: last_opt_def)
  let ?s' = "emit Fflush (emit (Stdout PROMPT) s1)"
  have "prompt_show s = Some ?s'" by (simp add: prompt_show_def s1(1))
  moreover have "trace ?s' = trace s
          @ map (\<lambda>a. finished (pid (node s a))) (filter (\<lambda>a. \<not> running (node s a)) as)
          @ [Stdout PROMPT, Fflush]"
    using s1(2) by (simp add: reported_def)
  moreover have "jobs_at (heap ?s') (bg_head ?s') (filter (\<lambda>a. running (node s a)) as)"
    using s1(2) by (simp add: reported_def jobs_at_def)
  moreover have "\<forall>a \<in> set as.
           if running (node s a) then map_option job_info (heap ?s' a) = Some (job_info (node s a))
           else heap ?s' a = None"
  proof
    fix a assume a: "a \<in> set as"
    with reg obtain n where "heap s a = Some n" 
      using seg_allocated [of "heap s" "bg_head s" as None a] by (auto simp: jobs_at_def)
    then have "map_option job_info (heap s a) = Some (job_info (node s a))"
      by (simp add: node_def)
    with s1(2) a show "if running (node s a)
        then map_option job_info (heap ?s' a) = Some (job_info (node s a)) else heap ?s' a = None"
      by (auto simp: reported_def)
  qed
  ultimately show ?thesis by blast
qed

theorem prompt_show_reports_witness:
  "jobs_at (heap two_jobs) (bg_head two_jobs) [10, 20]
   \<and> (\<exists>s'. prompt_show two_jobs = Some s'
         \<and> trace s' = [Stdout (''[41] Finished'' @ [NEWLINE]), Stdout PROMPT, Fflush]
         \<and> jobs_at (heap s') (bg_head s') [20]
         \<and> heap s' 10 = None
         \<and> map_option job_info (heap s' 20) = Some (42, True))"
proof -
  have reg: "jobs_at (heap two_jobs) (bg_head two_jobs) [10, 20]"
    by (simp add: two_jobs_def jobs_at_def)
  have n: "node two_jobs 10 = \<lparr>next = Some 20, running = False, pid = 41\<rparr>"
    "node two_jobs 20 = \<lparr>next = None, running = True, pid = 42\<rparr>"
    by (simp_all add: node_def two_jobs_def)
  have t: "trace two_jobs = []" by (simp add: two_jobs_def shell0_def)
  from prompt_show_reports [OF reg] obtain s' where "prompt_show two_jobs = Some s'"
    "trace s' = trace two_jobs
          @ map (\<lambda>a. finished (pid (node two_jobs a))) (filter (\<lambda>a. \<not> running (node two_jobs a)) [10, 20])
          @ [Stdout PROMPT, Fflush]"
    "jobs_at (heap s') (bg_head s') (filter (\<lambda>a. running (node two_jobs a)) [10, 20])"
    "\<forall>a \<in> set [10, 20].
           if running (node two_jobs a) then map_option job_info (heap s' a) = Some (job_info (node two_jobs a))
           else heap s' a = None"
    by blast
  then have "prompt_show two_jobs = Some s'
         \<and> trace s' = [Stdout (''[41] Finished'' @ [NEWLINE]), Stdout PROMPT, Fflush]
         \<and> jobs_at (heap s') (bg_head s') [20]
         \<and> heap s' 10 = None
         \<and> map_option job_info (heap s' 20) = Some (42, True)"
    by (simp add: n t finished_def show_41 job_info_def)
  with reg show ?thesis by blast
qed


text \<open>
  C2, amended. When the registry is a well-formed list, the exit handler sends
  \<^verbatim>\<open>SIGKILL\<close> to every job of the registry whose flag says running, in registry order, and
  to no other; it frees every node, leaves the registry empty and sets the interrupt flag.
\<close>

theorem exit_kills_running_jobs:
  assumes reg: "jobs_at (heap s) (bg_head s) as"
  shows "\<exists>s'. command_exit_handler s = Some s'
     \<and> trace s' = trace s
          @ map (\<lambda>a. Kill (pid (node s a)) SIGKILL) (filter (\<lambda>a. running (node s a)) as)
     \<and> bg_head s' = None \<and> (\<forall>a \<in> set as. heap s' a = None) \<and> interrupt s' = 1"
  using exit_handler_correct [OF reg] by blast

text \<open>Where the claim as it stands fails: the job with identifier 41 is in the registry
  with its flag saying terminated, and the handler sends it no signal.\<close>

theorem exit_kills_running_jobs_counterexample:
  "jobs_at (heap two_jobs) (bg_head two_jobs) [10, 20]
   \<and> pid (node two_jobs 10) = 41
   \<and> map_option trace (command_exit_handler two_jobs) = Some [Kill 42 SIGKILL]"
proof -
  from exit_handler_correct [OF two_jobs_registry] obtain s' where
    "command_exit_handler two_jobs = Some s'"
    "trace s' = trace two_jobs @ map (\<lambda>a. Kill (pid (node two_jobs a)) SIGKILL)
        (filter (\<lambda>a. running (node two_jobs a)) [10, 20])"
    by blast
  then have "map_option trace (command_exit_handler two_jobs) = Some [Kill 42 SIGKILL]"
    by (simp add: two_jobs_nodes) (simp add: two_jobs_def shell0_def)
  with two_jobs_registry show ?thesis by (simp add: two_jobs_nodes)
qed

theorem exit_kills_running_jobs_witness:
  "jobs_at (heap two_jobs) (bg_head two_jobs) [10, 20]
   \<and> (\<exists>s'. command_exit_handler two_jobs = Some s'
         \<and> trace s' = [Kill 42 SIGKILL]
         \<and> bg_head s' = None \<and> heap s' 10 = None \<and> heap s' 20 = None \<and> interrupt s' = 1)"
proof -
  have t: "trace two_jobs = []" by (simp add: two_jobs_def shell0_def)
  from exit_kills_running_jobs [OF two_jobs_registry] obtain s' where
    "command_exit_handler two_jobs = Some s'"
    "trace s' = trace two_jobs @ map (\<lambda>a. Kill (pid (node two_jobs a)) SIGKILL)
        (filter (\<lambda>a. running (node two_jobs a)) [10, 20])"
    "bg_head s' = None" "\<forall>a \<in> set [10, 20]. heap s' a = None" "interrupt s' = 1"
    by blast
  then have "command_exit_handler two_jobs = Some s'
         \<and> trace s' = [Kill 42 SIGKILL]
         \<and> bg_head s' = None \<and> heap s' 10 = None \<and> heap s' 20 = None \<and> interrupt s' = 1"
    by (simp add: two_jobs_nodes t)
  with two_jobs_registry show ?thesis by blast
qed


text \<open>
  C4. When the registry is a well-formed list, one activation of the handler for
  \<^verbatim>\<open>SIGCHLD\<close> reaps every child that has terminated: it returns with no terminated child
  left to wait for, having treated the children one by one as \<open>reap_one\<close> says. The
  registry keeps all its jobs, in order and with their identifiers; flags only go from
  running to terminated; the foreground token is what it was or -1; nothing is printed.
  With a single terminated child: if it is the foreground child only the token changes
  (to -1); otherwise only the flag of the first job with that identifier changes.
\<close>

theorem sigchld_reaps_all:
  assumes reg: "jobs_at (heap s) (bg_head s) as" and pos: "\<forall>z \<in> set (zombies k). 0 < z"
  shows "\<exists>s'. sig_handler SIGCHLD k s = Some (k\<lparr>zombies := []\<rparr>, s')
     \<and> s' = foldl (reap_one as) s (zombies k)
     \<and> jobs_at (heap s') (bg_head s') as \<and> bg_head s' = bg_head s \<and> trace s' = trace s
     \<and> (\<forall>a \<in> set as. pid (node s' a) = pid (node s a)
           \<and> (running (node s' a) \<longrightarrow> running (node s a)))
     \<and> (fg_pid s' = fg_pid s \<or> fg_pid s' = -1)
     \<and> (\<forall>z. zombies k = [z] \<and> z = fg_pid s \<longrightarrow> s' = s\<lparr>fg_pid := -1\<rparr>)
     \<and> (\<forall>z a. zombies k = [z] \<and> z \<noteq> fg_pid s \<and> find (\<lambda>a. pid (node s a) = z) as = Some a \<longrightarrow>
            s' = s\<lparr>heap := (heap s)(a \<mapsto> (node s a)\<lparr>running := False\<rparr>)\<rparr>)
     \<and> (\<forall>z. zombies k = [z] \<and> z \<noteq> fg_pid s \<and> find (\<lambda>a. pid (node s a) = z) as = None \<longrightarrow>
            s' = s)"
proof -
  from reg have seg: "seg (heap s) (bg_head s) as None" by (simp add: jobs_at_def)
  let ?s' = "foldl (reap_one as) s (zombies k)"
  have h: "sig_handler SIGCHLD k s = Some (k\<lparr>zombies := []\<rparr>, ?s')"
    by (simp add: sig_handler_def sigchld_loop_correct [OF seg pos])
  note r = reap_all_correct [OF seg, of "zombies k"]
  have a1: "\<forall>z. zombies k = [z] \<and> z = fg_pid s \<longrightarrow> ?s' = s\<lparr>fg_pid := -1\<rparr>"
    by (simp add: reap_one_def)
  have a2: "\<forall>z a. zombies k = [z] \<and> z \<noteq> fg_pid s \<and> find (\<lambda>a. pid (node s a) = z) as = Some a \<longrightarrow>
            ?s' = s\<lparr>heap := (heap s)(a \<mapsto> (node s a)\<lparr>running := False\<rparr>)\<rparr>"
    by (simp add: reap_one_def)
  have a3: "\<forall>z. zombies k = [z] \<and> z \<noteq> fg_pid s \<and> find (\<lambda>a. pid (node s a) = z) as = None \<longrightarrow>
            ?s' = s"
    by (simp add: reap_one_def)
  show ?thesis
  proof (intro exI [of _ ?s'] conjI)
    show "sig_handler SIGCHLD k s = Some (k\<lparr>zombies := []\<rparr>, ?s')" by (rule h)
    show "?s' = foldl (reap_one as) s (zombies k)" by (rule refl)
    show "jobs_at (heap ?s') (bg_head ?s') as" unfolding jobs_at_def using r by blast
    show "bg_head ?s' = bg_head s" using r by blast
    show "trace ?s' = trace s" using r by blast
    show "\<forall>a \<in> set as. pid (node ?s' a) = pid (node s a)
           \<and> (running (node ?s' a) \<longrightarrow> running (node s a))" using r by blast
    show "fg_pid ?s' = fg_pid s \<or> fg_pid ?s' = -1" using r by blast
  qed (rule a1 a2 a3)+
qed

theorem sigchld_reaps_all_witness:
  "jobs_at (heap busy) (bg_head busy) [10, 20]
   \<and> list_all (\<lambda>z. 0 < z) (zombies two_zombies)
   \<and> sig_handler SIGCHLD two_zombies busy =
       Some (\<lparr>zombies = [], live = []\<rparr>,
             busy\<lparr>fg_pid := -1,
                  heap := (heap busy)(20 \<mapsto> \<lparr>next = None, running = False, pid = 42\<rparr>)\<rparr>)"
proof -
  have reg: "jobs_at (heap busy) (bg_head busy) [10, 20]"
    using two_jobs_registry by (simp add: busy_def)
  have pos: "\<forall>z \<in> set (zombies two_zombies). 0 < z" by (simp add: two_zombies_def)
  have n: "node (busy\<lparr>fg_pid := - 1\<rparr>) 10 = \<lparr>next = Some 20, running = False, pid = 41\<rparr>"
    "node (busy\<lparr>fg_pid := - 1\<rparr>) 20 = \<lparr>next = None, running = True, pid = 42\<rparr>"
    using two_jobs_nodes by (simp_all add: node_def busy_def)
  from sigchld_reaps_all [OF reg pos]
  have "sig_handler SIGCHLD two_zombies busy =
      Some (two_zombies\<lparr>zombies := []\<rparr>, foldl (reap_one [10, 20]) busy (zombies two_zombies))"
    by blast
  moreover have "foldl (reap_one [10, 20]) busy (zombies two_zombies) =
       busy\<lparr>fg_pid := -1, heap := (heap busy)(20 \<mapsto> \<lparr>next = None, running = False, pid = 42\<rparr>)\<rparr>"
    by (simp add: two_zombies_def reap_one_def n) (simp add: busy_def)
  ultimately show ?thesis using reg pos by (simp add: two_zombies_def list_all_iff)
qed



section \<open>The claims about the launcher\<close>

text \<open>
  C1. A foreground command in the parent (\<^verbatim>\<open>fork\<close> returned a positive identifier). When
  the blocking wait fails with \<^verbatim>\<open>ECHILD\<close>, \<^verbatim>\<open>command_fork\<close> returns 0 with the foreground
  token -1 and nothing reported, exactly as when the wait reports an exited or killed
  child. When the wait fails with any other error, the failure is reported with
  \<^verbatim>\<open>perror\<close> and the function returns -1, again with the token -1. Whenever the call
  returns, the token is -1. (Before the deciding result the wait may report statuses that
  are neither exit nor death by signal; the loop just waits again.)
\<close>

theorem foreground_wait:
  assumes par: "0 < fork_ret e" and fg: "\<not> run_in_bg c"
  shows "(\<forall>sts ws. waits e = map WaitStatus sts @ WaitFailed ECHILD # ws \<and> set sts \<subseteq> {Stopped} \<longrightarrow>
            command_fork e c s = Some (Return 0, (emit (Fork (fork_ret e)) s)\<lparr>fg_pid := -1\<rparr>))
       \<and> (\<forall>sts st ws. waits e = map WaitStatus sts @ WaitStatus st # ws \<and> set sts \<subseteq> {Stopped}
              \<and> (st = Exited \<or> st = Signaled) \<longrightarrow>
            command_fork e c s = Some (Return 0, (emit (Fork (fork_ret e)) s)\<lparr>fg_pid := -1\<rparr>))
       \<and> (\<forall>sts err ws. waits e = map WaitStatus sts @ WaitFailed err # ws \<and> set sts \<subseteq> {Stopped}
              \<and> err \<noteq> ECHILD \<longrightarrow>
            command_fork e c s =
              Some (Return (-1),
                    (emit (Perror ''waitpid'') (emit (Fork (fork_ret e)) s))\<lparr>fg_pid := -1\<rparr>))
       \<and> (\<forall>r s'. command_fork e c s = Some (r, s') \<longrightarrow>
              fg_pid s' = -1 \<and> (r = Return 0 \<or> r = Return (-1)))"
  using wait_loop_stopped
  by (auto simp: command_fork_foreground [OF par fg] split: option.splits bool.splits)

theorem foreground_wait_witness:
  "0 < fork_ret env_echild \<and> \<not> run_in_bg fg_cmd
   \<and> waits env_echild = map WaitStatus [Stopped] @ WaitFailed ECHILD # [] \<and> set [Stopped] \<subseteq> {Stopped}
   \<and> command_fork env_echild fg_cmd busy = Some (Return 0, (emit (Fork 100) busy)\<lparr>fg_pid := -1\<rparr>)
   \<and> 0 < fork_ret env_eintr
   \<and> waits env_eintr = map WaitStatus [Stopped] @ WaitFailed EINTR # [] \<and> EINTR \<noteq> ECHILD
   \<and> command_fork env_eintr fg_cmd busy =
        Some (Return (-1), (emit (Perror ''waitpid'') (emit (Fork 100) busy))\<lparr>fg_pid := -1\<rparr>)"
proof -
  have p1: "0 < fork_ret env_echild" and p2: "0 < fork_ret env_eintr"
    by (simp_all add: env_echild_def env_eintr_def env0_def)
  have fg: "\<not> run_in_bg fg_cmd" by (simp add: fg_cmd_def)
  have w1: "waits env_echild = map WaitStatus [Stopped] @ WaitFailed ECHILD # []"
    and w2: "waits env_eintr = map WaitStatus [Stopped] @ WaitFailed EINTR # []"
    by (simp_all add: env_echild_def env_eintr_def)
  have f: "fork_ret env_echild = 100" "fork_ret env_eintr = 100"
    by (simp_all add: env_echild_def env_eintr_def env0_def)
  have st: "set [Stopped] \<subseteq> {Stopped}" "EINTR \<noteq> ECHILD" by simp_all
  from foreground_wait [OF p1 fg, of busy] w1 st
  have a: "command_fork env_echild fg_cmd busy = Some (Return 0, (emit (Fork 100) busy)\<lparr>fg_pid := -1\<rparr>)"
    unfolding f by blast
  from foreground_wait [OF p2 fg, of busy] w2 st
  have b: "command_fork env_eintr fg_cmd busy =
        Some (Return (-1), (emit (Perror ''waitpid'') (emit (Fork 100) busy))\<lparr>fg_pid := -1\<rparr>)"
    unfolding f by blast
  from p1 p2 fg w1 w2 a b show ?thesis by simp
qed


text \<open>
  C7. When the read returns zero bytes, \<^verbatim>\<open>input_read\<close> returns 0 having put the text
  \<^verbatim>\<open>exit\<close> in the buffer and echoed it with a newline; the globals are then those that
  reading the typed line \<^verbatim>\<open>exit\<close> leaves, but for the echo. On either of the two,
  \<^verbatim>\<open>command_execute\<close> (the registry being a well-formed list and the argument array
  allocated) runs the exit handler and returns 0: the same signals are sent, the registry
  is emptied and the interrupt flag is set, which ends both loops of the shell; the two
  runs end in the same globals, but for the echoed line in the trace.
\<close>

theorem eof_is_exit:
  assumes ca: "can_alloc e ARGS_SIZE" and reg: "jobs_at (heap s) (bg_head s) as"
  shows "\<exists>s2 s2'.
      input_read refill 0 (held, inp) s
        = Some (0, (held, inp), emit (Stdout (CMD_EXIT @ [NEWLINE])) (s\<lparr>buffer := fill CMD_EXIT\<rparr>))
    \<and> input_read refill 5 (held, CMD_EXIT @ NEWLINE # inp) s
        = Some (0, (held, inp), s\<lparr>buffer := fill CMD_EXIT\<rparr>)
    \<and> command_execute e (emit (Stdout (CMD_EXIT @ [NEWLINE])) (s\<lparr>buffer := fill CMD_EXIT\<rparr>))
        = Some (Return 0, s2)
    \<and> command_execute e (s\<lparr>buffer := fill CMD_EXIT\<rparr>) = Some (Return 0, s2')
    \<and> trace s2 = trace s @ [Stdout (CMD_EXIT @ [NEWLINE])]
          @ map (\<lambda>a. Kill (pid (node s a)) SIGKILL) (filter (\<lambda>a. running (node s a)) as)
    \<and> trace s2' = trace s
          @ map (\<lambda>a. Kill (pid (node s a)) SIGKILL) (filter (\<lambda>a. running (node s a)) as)
    \<and> interrupt s2 = 1 \<and> interrupt s2' = 1 \<and> bg_head s2 = None \<and> bg_head s2' = None
    \<and> heap s2 = heap s2' \<and> fg_pid s2 = fg_pid s2' \<and> buffer s2 = buffer s2'"
proof -
  let ?t' = "s\<lparr>buffer := fill CMD_EXIT\<rparr>"
  let ?t = "emit (Stdout (CMD_EXIT @ [NEWLINE])) ?t'"
  let ?K = "map (\<lambda>a. Kill (pid (node s a)) SIGKILL) (filter (\<lambda>a. running (node s a)) as)"
  have nodes: "node ?t = node s" "node ?t' = node s"
    by (simp_all add: node_def fun_eq_iff)
  have reg1: "jobs_at (heap ?t) (bg_head ?t) as" and reg2: "jobs_at (heap ?t') (bg_head ?t') as"
    using reg by simp_all
  from exit_handler_correct [OF reg1] obtain s2 where s2:
    "command_exit_handler ?t = Some s2" "trace s2 = trace ?t @ ?K" "bg_head s2 = None"
    "\<forall>a \<in> set as. heap s2 a = None" "\<forall>a. a \<notin> set as \<longrightarrow> heap s2 a = heap ?t a"
    "interrupt s2 = 1" "fg_pid s2 = fg_pid ?t" "buffer s2 = buffer ?t"
    unfolding nodes by blast
  from exit_handler_correct [OF reg2] obtain s2' where s2':
    "command_exit_handler ?t' = Some s2'" "trace s2' = trace ?t' @ ?K" "bg_head s2' = None"
    "\<forall>a \<in> set as. heap s2' a = None" "\<forall>a. a \<notin> set as \<longrightarrow> heap s2' a = heap ?t' a"
    "interrupt s2' = 1" "fg_pid s2' = fg_pid ?t'" "buffer s2' = buffer ?t'"
    unfolding nodes by blast
  have x: "command_execute e ?t = Some (Return 0, s2)"
    using execute_exit [OF ca, of ?t] s2(1) by simp
  have x': "command_execute e ?t' = Some (Return 0, s2')"
    using execute_exit [OF ca, of ?t'] s2'(1) by simp
  have h: "heap s2 = heap s2'"
  proof
    fix a show "heap s2 a = heap s2' a"
      using s2(4,5) s2'(4,5) by (cases "a \<in> set as") simp_all
  qed
  show ?thesis
  proof (rule exI [of _ s2], rule exI [of _ s2'], intro conjI)
    show "input_read refill 0 (held, inp) s = Some (0, (held, inp), ?t)" by (rule input_read_eof)
    show "input_read refill 5 (held, CMD_EXIT @ NEWLINE # inp) s = Some (0, (held, inp), ?t')"
      by (rule input_read_exit_typed)
    show "trace s2 = trace s @ [Stdout (CMD_EXIT @ [NEWLINE])] @ ?K" using s2(2) by simp
    show "trace s2' = trace s @ ?K" using s2'(2) by simp
    show "fg_pid s2 = fg_pid s2'" using s2(7) s2'(7) by simp
    show "buffer s2 = buffer s2'" using s2(8) s2'(8) by simp
  qed (rule x x' h s2 s2')+
qed

theorem eof_is_exit_witness:
  "can_alloc env0 ARGS_SIZE \<and> jobs_at (heap two_jobs) (bg_head two_jobs) [10, 20]
   \<and> input_read (\<lambda>inp. 0) 0 ([], []) two_jobs
        = Some (0, ([], []), emit (Stdout (CMD_EXIT @ [NEWLINE])) (two_jobs\<lparr>buffer := fill CMD_EXIT\<rparr>))
   \<and> (\<exists>s2. command_execute env0 (emit (Stdout (CMD_EXIT @ [NEWLINE])) (two_jobs\<lparr>buffer := fill CMD_EXIT\<rparr>))
              = Some (Return 0, s2)
          \<and> trace s2 = [Stdout (CMD_EXIT @ [NEWLINE]), Kill 42 SIGKILL]
          \<and> interrupt s2 = 1 \<and> bg_head s2 = None)"
proof -
  have ca: "can_alloc env0 ARGS_SIZE" by (simp add: env0_def alloc_ok_def)
  have t: "trace two_jobs = []" by (simp add: two_jobs_def shell0_def)
  from eof_is_exit [OF ca two_jobs_registry, of "\<lambda>inp. 0" "[]" "[]"] obtain s2 where
    "input_read (\<lambda>inp. 0) 0 ([], []) two_jobs
        = Some (0, ([], []), emit (Stdout (CMD_EXIT @ [NEWLINE])) (two_jobs\<lparr>buffer := fill CMD_EXIT\<rparr>))"
    "command_execute env0 (emit (Stdout (CMD_EXIT @ [NEWLINE])) (two_jobs\<lparr>buffer := fill CMD_EXIT\<rparr>))
              = Some (Return 0, s2)"
    "trace s2 = trace two_jobs @ [Stdout (CMD_EXIT @ [NEWLINE])]
          @ map (\<lambda>a. Kill (pid (node two_jobs a)) SIGKILL) (filter (\<lambda>a. running (node two_jobs a)) [10, 20])"
    "interrupt s2 = 1" "bg_head s2 = None"
    by blast
  then have "input_read (\<lambda>inp. 0) 0 ([], []) two_jobs
        = Some (0, ([], []), emit (Stdout (CMD_EXIT @ [NEWLINE])) (two_jobs\<lparr>buffer := fill CMD_EXIT\<rparr>))
   \<and> (\<exists>s2. command_execute env0 (emit (Stdout (CMD_EXIT @ [NEWLINE])) (two_jobs\<lparr>buffer := fill CMD_EXIT\<rparr>))
              = Some (Return 0, s2)
          \<and> trace s2 = [Stdout (CMD_EXIT @ [NEWLINE]), Kill 42 SIGKILL]
          \<and> interrupt s2 = 1 \<and> bg_head s2 = None)"
    by (simp add: two_jobs_nodes t)
  with ca two_jobs_registry show ?thesis by blast
qed


end
